theory Spec2Isabelle
  imports Main "HOL-Library.Word"
begin

unbundle bit_operations_syntax

section \<open>The bit queue of bit\_queue.c\<close>

text \<open>
  The C types are modelled for an LP64 target with a two's complement 32-bit
  \<^verbatim>\<open>int\<close>: \<^verbatim>\<open>size_t\<close> is a 64-bit word, \<^verbatim>\<open>uint8_t\<close> an 8-bit
  word, \<^verbatim>\<open>int\<close> a 32-bit word read as signed. Arithmetic on them wraps around as
  the words do; a conversion to a narrower type keeps the low bits (\<open>ucast\<close>), a
  conversion of an \<^verbatim>\<open>int\<close> to \<^verbatim>\<open>size_t\<close> extends the sign (\<open>scast\<close>).
  A pointer that may be \<^verbatim>\<open>NULL\<close> is an option.
\<close>

type_synonym uint8_t = "8 word"
type_synonym size_t = "64 word"
type_synonym int_t = "32 word"

datatype errno_t = EINVAL | EMSGSIZE | EAGAIN | ENOMEM

text \<open>
  What C leaves undefined is a fault of the model, never a value: an access
  outside a buffer, a dereference of a freed queue, a free of a freed buffer.
\<close>

datatype fault = OutOfBounds | UseAfterFree | InvalidFree

subsection \<open>Macros\<close>

definition BYTE_MASK :: int_t where
  "BYTE_MASK = 0xFF"

definition CREATE_BYTE_MASK :: "nat \<Rightarrow> int_t" where
  "CREATE_BYTE_MASK bit_offset = push_bit bit_offset BYTE_MASK AND BYTE_MASK"

definition CREATE_BYTE_MASK_LSB :: "nat \<Rightarrow> int_t" where
  "CREATE_BYTE_MASK_LSB bit_offset = drop_bit bit_offset (CREATE_BYTE_MASK bit_offset)"

subsection \<open>The queue\<close>

text \<open>
  \<^verbatim>\<open>struct _bit_queue_t\<close>. The field \<open>buffer\<close> is a pointer: the operations that
  only read and write through it are modelled with the bytes it points to in its
  place (\<open>'b\<close> is \<open>uint8_t list\<close>); \<^verbatim>\<open>bit_queue_destroy\<close>, which frees, is
  modelled over an explicit heap, where the field holds an address.
\<close>

record 'b bit_queue_t =
  buffer :: "'b option"
  r_bit_offset :: uint8_t
  r_byte_offset :: size_t
  w_bit_offset :: uint8_t
  w_byte_offset :: size_t
  written_bits :: size_t
  buffer_size :: size_t
  free_buff :: bool

type_synonym bit_queue = "uint8_t list bit_queue_t"

subsection \<open>bit\_queue\_bit\_buffer\_copy\<close>

text \<open>The three-way choice of \<^verbatim>\<open>offset_bit_count\<close> at the head of the loop body.\<close>

definition offset_bit_count_of :: "size_t \<Rightarrow> uint8_t \<Rightarrow> size_t \<Rightarrow> size_t" where
  "offset_bit_count_of r_bits dst_bit_offset src_bit_offset =
     (if r_bits + ucast dst_bit_offset \<le> 8 \<and> r_bits \<le> 8 - src_bit_offset then 8 - r_bits
      else if src_bit_offset \<le> ucast dst_bit_offset then ucast dst_bit_offset
      else src_bit_offset)"

text \<open>
  The assignment \<^verbatim>\<open>dst |= ((src & (MASK_LSB(o) << sb)) >> sb) << db\<close>: the right-hand
  side is computed in \<^verbatim>\<open>int\<close> and the result is cut to a byte.
\<close>

definition copy_byte :: "uint8_t \<Rightarrow> uint8_t \<Rightarrow> size_t \<Rightarrow> size_t \<Rightarrow> uint8_t \<Rightarrow> uint8_t" where
  "copy_byte dst_byte src_byte offset_bit_count src_bit_offset dst_bit_offset =
     dst_byte OR
     ucast (push_bit (unat dst_bit_offset)
       (drop_bit (unat src_bit_offset)
         ((ucast src_byte :: int_t) AND
            push_bit (unat src_bit_offset) (CREATE_BYTE_MASK_LSB (unat offset_bit_count)))))"

text \<open>
  The \<^verbatim>\<open>do ... while (r_bits > 0)\<close> loop. It returns the destination buffer;
  \<open>None\<close> stands for a loop that never ends.
\<close>

partial_function (option) bit_queue_bit_buffer_copy_loop ::
  "uint8_t list \<Rightarrow> uint8_t list \<Rightarrow> size_t \<Rightarrow> uint8_t \<Rightarrow> size_t \<Rightarrow> size_t \<Rightarrow> size_t
    \<Rightarrow> (fault + uint8_t list) option" where
  "bit_queue_bit_buffer_copy_loop dst_buff src_buff dst_byte_offset dst_bit_offset
      src_byte_offset src_bit_offset r_bits =
     (let offset_bit_count = offset_bit_count_of r_bits dst_bit_offset src_bit_offset in
      if length dst_buff \<le> unat dst_byte_offset \<or> length src_buff \<le> unat src_byte_offset
      then Some (Inl OutOfBounds)
      else
        let dst_buff' = dst_buff[unat dst_byte_offset :=
              copy_byte (dst_buff ! unat dst_byte_offset) (src_buff ! unat src_byte_offset)
                offset_bit_count src_bit_offset dst_bit_offset];
            src_bit_offset' = src_bit_offset + (8 - offset_bit_count);
            dst_bit_offset' = (ucast (ucast dst_bit_offset + (8 - offset_bit_count)) :: uint8_t);
            r_bits' = r_bits - (8 - offset_bit_count);
            src_byte_offset' = (if src_bit_offset' = 8 then src_byte_offset + 1 else src_byte_offset);
            src_bit_offset'' = (if src_bit_offset' = 8 then 0 else src_bit_offset');
            dst_byte_offset' = (if dst_bit_offset' = 8 then dst_byte_offset + 1 else dst_byte_offset);
            dst_bit_offset'' = (if dst_bit_offset' = 8 then 0 else dst_bit_offset')
        in if 0 < r_bits'
           then bit_queue_bit_buffer_copy_loop dst_buff' src_buff dst_byte_offset' dst_bit_offset''
                  src_byte_offset' src_bit_offset'' r_bits'
           else Some (Inr dst_buff'))"

declare bit_queue_bit_buffer_copy_loop.simps [code]

text \<open>The second condition of the function: the sizes and offsets are rejected.\<close>

definition copy_args_invalid ::
  "size_t \<Rightarrow> uint8_t \<Rightarrow> size_t \<Rightarrow> size_t \<Rightarrow> size_t \<Rightarrow> size_t \<Rightarrow> size_t \<Rightarrow> bool" where
  "copy_args_invalid dst_byte_offset dst_bit_offset dst_buff_size
      src_byte_offset src_bit_offset src_buff_size bit_count =
     (bit_count = 0 \<or> dst_buff_size < dst_byte_offset \<or> src_buff_size < src_byte_offset \<or>
      8 \<le> dst_bit_offset \<or> 8 \<le> src_bit_offset \<or> src_buff_size * 8 < bit_count)"

text \<open>The two remaining-capacity expressions, in \<^verbatim>\<open>size_t\<close> arithmetic.\<close>

definition dst_remaining :: "size_t \<Rightarrow> size_t \<Rightarrow> uint8_t \<Rightarrow> size_t" where
  "dst_remaining dst_buff_size dst_byte_offset dst_bit_offset =
     (dst_buff_size - dst_byte_offset) * 8 - ucast dst_bit_offset"

definition src_remaining :: "size_t \<Rightarrow> size_t \<Rightarrow> size_t \<Rightarrow> size_t" where
  "src_remaining src_buff_size src_byte_offset src_bit_offset =
     (src_buff_size - src_byte_offset) * 8 - src_bit_offset"

text \<open>The bit count after the clipping at the head of the last branch.\<close>

definition clip_bit_count :: "size_t \<Rightarrow> size_t \<Rightarrow> size_t \<Rightarrow> size_t \<Rightarrow> size_t" where
  "clip_bit_count src_buff_size src_byte_offset src_bit_offset bit_count =
     (if src_remaining src_buff_size src_byte_offset src_bit_offset < bit_count
      then src_remaining src_buff_size src_byte_offset src_bit_offset
      else bit_count)"

text \<open>
  The function returns the destination buffer as the call leaves it, the
  \<^verbatim>\<open>int\<close> it returns, and the value it stores into \<^verbatim>\<open>errno\<close>, if any.
\<close>

definition bit_queue_bit_buffer_copy ::
  "uint8_t list option \<Rightarrow> uint8_t list option \<Rightarrow> size_t \<Rightarrow> uint8_t \<Rightarrow> size_t
    \<Rightarrow> size_t \<Rightarrow> size_t \<Rightarrow> size_t \<Rightarrow> size_t
    \<Rightarrow> (fault + uint8_t list option \<times> int_t \<times> errno_t option) option" where
  "bit_queue_bit_buffer_copy dst_buff src_buff dst_byte_offset dst_bit_offset dst_buff_size
      src_byte_offset src_bit_offset src_buff_size bit_count =
     (case (dst_buff, src_buff) of
        (Some dst, Some src) \<Rightarrow>
          if copy_args_invalid dst_byte_offset dst_bit_offset dst_buff_size
               src_byte_offset src_bit_offset src_buff_size bit_count
          then Some (Inr (dst_buff, - 1, Some EINVAL))
          else if dst_remaining dst_buff_size dst_byte_offset dst_bit_offset < bit_count
          then Some (Inr (dst_buff, - 1, Some EMSGSIZE))
          else
            let bit_count' = clip_bit_count src_buff_size src_byte_offset src_bit_offset bit_count
            in (case bit_queue_bit_buffer_copy_loop dst src dst_byte_offset dst_bit_offset
                       src_byte_offset src_bit_offset bit_count' of
                  None \<Rightarrow> None
                | Some (Inl f) \<Rightarrow> Some (Inl f)
                | Some (Inr dst') \<Rightarrow> Some (Inr (Some dst', ucast bit_count', None)))
      | _ \<Rightarrow> Some (Inr (dst_buff, - 1, Some EINVAL)))"

subsection \<open>Capacity queries\<close>

definition bit_queue_has_space :: "'b bit_queue_t option \<Rightarrow> size_t \<Rightarrow> bool \<times> errno_t option" where
  "bit_queue_has_space bq bit_count =
     (case bq of
        None \<Rightarrow> (False, Some EINVAL)
      | Some q \<Rightarrow>
          if bit_count \<le> buffer_size q * 8 - written_bits q then (True, None)
          else (False, None))"

definition bit_queue_has_data :: "'b bit_queue_t option \<Rightarrow> size_t \<Rightarrow> bool \<times> errno_t option" where
  "bit_queue_has_data bq bit_count =
     (case bq of
        None \<Rightarrow> (False, Some EINVAL)
      | Some q \<Rightarrow>
          if bit_count \<le> written_bits q then (True, None)
          else (False, None))"

subsection \<open>Constructors\<close>

text \<open>
  \<^verbatim>\<open>calloc\<close> may fail: whether each call succeeds is an argument of the model.
  A queue that \<^verbatim>\<open>calloc\<close> returned has every field zero.
\<close>

definition calloc_bit_queue :: "'b bit_queue_t" where
  "calloc_bit_queue =
     \<lparr> buffer = None, r_bit_offset = 0, r_byte_offset = 0, w_bit_offset = 0,
       w_byte_offset = 0, written_bits = 0, buffer_size = 0, free_buff = False \<rparr>"

definition bit_queue_base_init :: "bool \<Rightarrow> bool \<Rightarrow> size_t \<Rightarrow> bit_queue option \<times> errno_t option" where
  "bit_queue_base_init calloc_bq calloc_buffer byte_count =
     (if byte_count = 0 then (None, Some EINVAL)
      else if \<not> calloc_bq then (None, Some ENOMEM)
      else if \<not> calloc_buffer then (None, Some ENOMEM)
      else (Some (calloc_bit_queue
              \<lparr> buffer := Some (replicate (unat byte_count) 0),
                buffer_size := byte_count, written_bits := 0, free_buff := True \<rparr>), None))"

definition bit_queue_init ::
  "bool \<Rightarrow> uint8_t list option \<Rightarrow> size_t \<Rightarrow> bool \<Rightarrow> bit_queue option \<times> errno_t option" where
  "bit_queue_init calloc_bq buffer_arg byte_count free_buff_arg =
     (if byte_count = 0 \<or> buffer_arg = None then (None, Some EINVAL)
      else if \<not> calloc_bq then (None, Some ENOMEM)
      else (Some (calloc_bit_queue
              \<lparr> buffer := buffer_arg, buffer_size := byte_count,
                written_bits := byte_count * 8, free_buff := free_buff_arg \<rparr>), None))"

subsection \<open>bit\_queue\_read\_bits and bit\_queue\_write\_bits\<close>

text \<open>
  The cursor update \<^verbatim>\<open>off += ret_val; byte += off / 8; off = off % 8\<close> on a
  \<^verbatim>\<open>uint8_t\<close> bit offset: the sum is computed in \<^verbatim>\<open>int\<close> and stored back into
  eight bits before it is divided.
\<close>

definition add_bit_offset :: "uint8_t \<Rightarrow> int_t \<Rightarrow> uint8_t" where
  "add_bit_offset bit_offset ret_val = ucast ((ucast bit_offset :: int_t) + ret_val)"

partial_function (option) bit_queue_write_bits_loop ::
  "bit_queue \<Rightarrow> uint8_t list \<Rightarrow> size_t \<Rightarrow> size_t \<Rightarrow> uint8_t \<Rightarrow> size_t
    \<Rightarrow> (fault + bit_queue \<times> int_t \<times> errno_t option) option" where
  "bit_queue_write_bits_loop bq buffer_arg buffer_size_arg b_byte_offset b_bit_offset r_bits =
     (case bit_queue_bit_buffer_copy (buffer bq) (Some buffer_arg) (w_byte_offset bq)
             (w_bit_offset bq) (buffer_size bq) b_byte_offset (ucast b_bit_offset)
             buffer_size_arg r_bits of
        None \<Rightarrow> None
      | Some (Inl f) \<Rightarrow> Some (Inl f)
      | Some (Inr (dst', ret_val, e)) \<Rightarrow>
          if ret_val = - 1 then Some (Inr (bq\<lparr>buffer := dst'\<rparr>, ret_val, e))
          else
            let b_bit_offset' = add_bit_offset b_bit_offset ret_val;
                b_byte_offset' = b_byte_offset + ucast (b_bit_offset' div 8);
                b_bit_offset'' = b_bit_offset' mod 8;
                w_bit_offset' = add_bit_offset (w_bit_offset bq) ret_val;
                w_byte_offset' = w_byte_offset bq + ucast (w_bit_offset' div 8);
                w_bit_offset'' = w_bit_offset' mod 8;
                w_byte_offset'' = (if w_byte_offset' = buffer_size bq then 0 else w_byte_offset');
                bq' = bq\<lparr> buffer := dst', w_bit_offset := w_bit_offset'',
                         w_byte_offset := w_byte_offset'',
                         written_bits := written_bits bq + scast ret_val \<rparr>;
                r_bits' = r_bits - scast ret_val
            in if 0 < r_bits'
               then bit_queue_write_bits_loop bq' buffer_arg buffer_size_arg
                      b_byte_offset' b_bit_offset'' r_bits'
               else Some (Inr (bq', ret_val, e)))"

declare bit_queue_write_bits_loop.simps [code]

definition bit_queue_write_bits ::
  "bit_queue option \<Rightarrow> uint8_t list option \<Rightarrow> size_t \<Rightarrow> size_t
    \<Rightarrow> (fault + bit_queue option \<times> int_t \<times> errno_t option) option" where
  "bit_queue_write_bits bq buffer_arg buffer_size_arg bit_count =
     (case (bq, buffer_arg) of
        (Some q, Some src) \<Rightarrow>
          if bit_count = 0 \<or> buffer_size_arg * 8 < bit_count
          then Some (Inr (bq, - 1, Some EINVAL))
          else if buffer q = None then Some (Inr (bq, - 1, Some EINVAL))
          else if buffer_size q * 8 < bit_count then Some (Inr (bq, - 1, Some EMSGSIZE))
          else if \<not> fst (bit_queue_has_space bq bit_count)
          then Some (Inr (bq, - 1, Some EAGAIN))
          else
            (case bit_queue_write_bits_loop q src buffer_size_arg 0 0 bit_count of
               None \<Rightarrow> None
             | Some (Inl f) \<Rightarrow> Some (Inl f)
             | Some (Inr (q', ret_val, e)) \<Rightarrow>
                 Some (Inr (Some q', if ret_val \<noteq> - 1 then ucast bit_count else ret_val, e)))
      | _ \<Rightarrow> Some (Inr (bq, - 1, Some EINVAL)))"

text \<open>The read returns the destination buffer of the caller as well.\<close>

partial_function (option) bit_queue_read_bits_loop ::
  "bit_queue \<Rightarrow> uint8_t list \<Rightarrow> size_t \<Rightarrow> size_t \<Rightarrow> uint8_t \<Rightarrow> size_t
    \<Rightarrow> (fault + bit_queue \<times> uint8_t list \<times> int_t \<times> errno_t option) option" where
  "bit_queue_read_bits_loop bq buffer_arg buffer_size_arg b_byte_offset b_bit_offset r_bits =
     (case bit_queue_bit_buffer_copy (Some buffer_arg) (buffer bq) b_byte_offset b_bit_offset
             buffer_size_arg (r_byte_offset bq) (ucast (r_bit_offset bq)) (buffer_size bq)
             r_bits of
        None \<Rightarrow> None
      | Some (Inl f) \<Rightarrow> Some (Inl f)
      | Some (Inr (dst', ret_val, e)) \<Rightarrow>
          let buffer_arg' = (case dst' of Some b \<Rightarrow> b | None \<Rightarrow> buffer_arg) in
          if ret_val = - 1 then Some (Inr (bq, buffer_arg', ret_val, e))
          else
            let b_bit_offset' = add_bit_offset b_bit_offset ret_val;
                b_byte_offset' = b_byte_offset + ucast (b_bit_offset' div 8);
                b_bit_offset'' = b_bit_offset' mod 8;
                r_bit_offset' = add_bit_offset (r_bit_offset bq) ret_val;
                r_byte_offset' = r_byte_offset bq + ucast (r_bit_offset' div 8);
                r_bit_offset'' = r_bit_offset' mod 8;
                wrap = (r_byte_offset' = buffer_size bq);
                bq' = bq\<lparr> r_bit_offset := (if wrap then 0 else r_bit_offset''),
                         r_byte_offset := (if wrap then 0 else r_byte_offset'),
                         written_bits := written_bits bq - scast ret_val \<rparr>;
                r_bits' = r_bits - scast ret_val
            in if 0 < r_bits'
               then bit_queue_read_bits_loop bq' buffer_arg' buffer_size_arg
                      b_byte_offset' b_bit_offset'' r_bits'
               else Some (Inr (bq', buffer_arg', ret_val, e)))"

declare bit_queue_read_bits_loop.simps [code]

definition bit_queue_read_bits ::
  "bit_queue option \<Rightarrow> uint8_t list option \<Rightarrow> size_t \<Rightarrow> size_t
    \<Rightarrow> (fault + bit_queue option \<times> uint8_t list option \<times> int_t \<times> errno_t option) option" where
  "bit_queue_read_bits bq buffer_arg buffer_size_arg bit_count =
     (case (bq, buffer_arg) of
        (Some q, Some dst) \<Rightarrow>
          if bit_count = 0 \<or> buffer_size_arg * 8 < bit_count
          then Some (Inr (bq, buffer_arg, - 1, Some EINVAL))
          else if buffer q = None then Some (Inr (bq, buffer_arg, - 1, Some EINVAL))
          else if buffer_size q * 8 < bit_count
          then Some (Inr (bq, buffer_arg, - 1, Some EMSGSIZE))
          else if \<not> fst (bit_queue_has_data bq bit_count)
          then Some (Inr (bq, buffer_arg, - 1, Some EAGAIN))
          else
            (case bit_queue_read_bits_loop q dst buffer_size_arg 0 0 bit_count of
               None \<Rightarrow> None
             | Some (Inl f) \<Rightarrow> Some (Inl f)
             | Some (Inr (q', dst', ret_val, e)) \<Rightarrow>
                 Some (Inr (Some q', Some dst',
                   if ret_val \<noteq> - 1 then ucast bit_count else ret_val, e)))
      | _ \<Rightarrow> Some (Inr (bq, buffer_arg, - 1, Some EINVAL)))"

subsection \<open>The heap and bit\_queue\_destroy\<close>

text \<open>
  The heap holds the live queue structures and the live byte buffers, each under
  its address. \<^verbatim>\<open>free\<close> removes an object from it; freeing a buffer that is
  not live and reading a queue that is not live are faults.
\<close>

record heap =
  queues :: "nat \<rightharpoonup> nat bit_queue_t"
  blocks :: "nat \<rightharpoonup> uint8_t list"

definition heap_free :: "heap \<Rightarrow> nat \<Rightarrow> fault + heap" where
  "heap_free h a =
     (case blocks h a of
        None \<Rightarrow> Inl InvalidFree
      | Some bytes \<Rightarrow> Inr (h\<lparr>blocks := (blocks h)(a := None)\<rparr>))"

definition bit_queue_destroy :: "heap \<Rightarrow> nat option \<Rightarrow> fault + heap \<times> int_t \<times> errno_t option" where
  "bit_queue_destroy h bq =
     (case bq of
        None \<Rightarrow> Inr (h, - 1, Some EINVAL)
      | Some p \<Rightarrow>
          (case queues h p of
             None \<Rightarrow> Inl UseAfterFree
           | Some q \<Rightarrow>
               (case buffer q of
                  None \<Rightarrow> Inr (h, - 1, Some EINVAL)
                | Some b \<Rightarrow>
                    (case (if free_buff q then heap_free h b else Inr h) of
                       Inl f \<Rightarrow> Inl f
                     | Inr h1 \<Rightarrow>
                         let h2 = h1\<lparr>queues := (queues h1)(p \<mapsto> q\<lparr>buffer := None\<rparr>)\<rparr>
                         in Inr (h2\<lparr>queues := (queues h2)(p := None)\<rparr>, 0, None)))))"

text \<open>
  The heap after \<^verbatim>\<open>bit_queue_base_init(1)\<close>: the queue at address 1 owns the
  one-byte buffer at address 2.
\<close>

definition owned_heap :: heap where
  "owned_heap =
     \<lparr> queues = [1 \<mapsto> \<lparr> buffer = Some 2, r_bit_offset = 0, r_byte_offset = 0,
            w_bit_offset = 0, w_byte_offset = 0, written_bits = 0, buffer_size = 1,
            free_buff = True \<rparr>],
       blocks = [2 \<mapsto> [0]] \<rparr>"

subsection \<open>Reading results\<close>

text \<open>The caller's buffer after a read that returned.\<close>

definition read_dest ::
  "(fault + bit_queue option \<times> uint8_t list option \<times> int_t \<times> errno_t option) option
    \<Rightarrow> uint8_t list option" where
  "read_dest r = (case r of Some (Inr (bq, dst, ret_val, e)) \<Rightarrow> dst | _ \<Rightarrow> None)"


subsection \<open>Buffers as bit sequences\<close>

text \<open>
  Bit \<open>p\<close> of a buffer is bit \<open>p mod 8\<close> of byte \<open>p div 8\<close>, the least significant
  bit of a byte first; \<open>le_val\<close> reads the whole buffer as one little-endian number,
  whose bit \<open>p\<close> is then bit \<open>p\<close> of the buffer.
\<close>

definition get_bit :: "uint8_t list \<Rightarrow> nat \<Rightarrow> bool" where
  "get_bit buf p = bit (buf ! (p div 8)) (p mod 8)"

fun le_val :: "uint8_t list \<Rightarrow> nat" where
  "le_val [] = 0"
| "le_val (b # bs) = unat b + 256 * le_val bs"


subsection \<open>The cursor invariant and the reachable queues\<close>

text \<open>
  The bounds of the data model: both cursors inside the buffer and the count of
  valid bits within the capacity, as the code compares them, in \<^verbatim>\<open>size_t\<close>.
\<close>

definition cursor_inv :: "bit_queue \<Rightarrow> bool" where
  "cursor_inv q =
     (r_byte_offset q < buffer_size q \<and> r_bit_offset q < 8 \<and>
      w_byte_offset q < buffer_size q \<and> w_bit_offset q < 8 \<and>
      written_bits q \<le> buffer_size q * 8)"

text \<open>
  A queue is reachable when a constructor returned it, or when a call of
  \<^verbatim>\<open>bit_queue_write_bits\<close> or \<^verbatim>\<open>bit_queue_read_bits\<close> on a reachable queue
  returned, with success or with an error, and left it.
\<close>

inductive reachable :: "bit_queue \<Rightarrow> bool" where
  by_base_init:
    "bit_queue_base_init calloc_bq calloc_buffer byte_count = (Some q, e) \<Longrightarrow> reachable q"
| by_init:
    "bit_queue_init calloc_bq buffer_arg byte_count free_buff_arg = (Some q, e) \<Longrightarrow> reachable q"
| by_write:
    "reachable q \<Longrightarrow>
     bit_queue_write_bits (Some q) buffer_arg buffer_size_arg bit_count =
       Some (Inr (Some q', ret_val, e)) \<Longrightarrow>
     reachable q'"
| by_read:
    "reachable q \<Longrightarrow>
     bit_queue_read_bits (Some q) buffer_arg buffer_size_arg bit_count =
       Some (Inr (Some q', buffer_arg', ret_val, e)) \<Longrightarrow>
     reachable q'"


section \<open>The transfer primitive\<close>

subsection \<open>Words as numbers\<close>

lemma unat_ucast_8_64: "unat (ucast (d :: uint8_t) :: size_t) = unat d"
proof -
  have "unat d < 2 ^ 8" using unsigned_less [of d] by simp
  then have "unat d < 2 ^ 64" by simp
  then show ?thesis by (simp add: unsigned_ucast_eq take_bit_nat_eq_self)
qed

lemma BYTE_MASK_eq_mask: "BYTE_MASK = mask 8"
  by (simp add: BYTE_MASK_def mask_eq_exp_minus_1)

lemma BYTE_MASK_LSB_eq_mask: "n \<le> 8 \<Longrightarrow> CREATE_BYTE_MASK_LSB n = mask (8 - n)"
  by (rule bit_eqI)
    (auto simp add: CREATE_BYTE_MASK_LSB_def CREATE_BYTE_MASK_def BYTE_MASK_eq_mask bit_simps)

lemma offset_bit_count_run:
  assumes "unat dbit < 8" "unat sbit < 8" "unat r_bits + unat dbit < 2 ^ 64"
  shows "unat (offset_bit_count_of r_bits dbit sbit) = 8 - min (unat r_bits) (min (8 - unat dbit) (8 - unat sbit))"
  using assms
  apply (simp add: offset_bit_count_of_def word_le_nat_alt unat_ucast_8_64 unat_sub_if_size unat_plus_if' word_size)
  apply (auto simp: min_def)
  done

lemma copy_byte_bit:
  assumes "unat dbit < 8" "unat sbit < 8" "unat ofs = 8 - run" "run \<le> 8 - unat dbit" "run \<le> 8 - unat sbit"
  shows "bit (copy_byte db sb ofs sbit dbit) j =
     (bit db j \<or> (unat dbit \<le> j \<and> j < unat dbit + run \<and> bit sb (unat sbit + (j - unat dbit))))"
  using assms
  apply (simp add: copy_byte_def BYTE_MASK_LSB_eq_mask bit_simps)
  apply (auto simp: bit_simps dest: bit_imp_le_length)
  done

lemma copy_loop_step:
  fixes dst src :: "uint8_t list"
  assumes r: "0 < unat r_bits" and d: "unat dbit < 8" and s: "unat sbit < 8"
    and dfit: "8 * unat dbyte + unat dbit + unat r_bits \<le> 8 * length dst"
    and sfit: "8 * unat sbyte + unat sbit + unat r_bits \<le> 8 * length src"
    and dlen: "length dst < 2 ^ 61" and slen: "length src < 2 ^ 61"
  defines "run \<equiv> min (unat r_bits) (min (8 - unat dbit) (8 - unat sbit))"
  defines "dst1 \<equiv> dst[unat dbyte := copy_byte (dst ! unat dbyte) (src ! unat sbyte)
                      (offset_bit_count_of r_bits dbit sbit) sbit dbit]"
  shows "\<exists>dbyte' dbit' sbyte' sbit' r_bits'.
     bit_queue_bit_buffer_copy_loop dst src dbyte dbit sbyte sbit r_bits =
       (if run = unat r_bits then Some (Inr dst1)
        else bit_queue_bit_buffer_copy_loop dst1 src dbyte' dbit' sbyte' sbit' r_bits') \<and>
     unat r_bits' = unat r_bits - run \<and> unat dbit' < 8 \<and> unat sbit' < 8 \<and>
     8 * unat dbyte' + unat dbit' = 8 * unat dbyte + unat dbit + run \<and>
     8 * unat sbyte' + unat sbit' = 8 * unat sbyte + unat sbit + run"
proof -
  let ?o = "offset_bit_count_of r_bits dbit sbit"
  let ?w = "8 - ?o"
  have run1: "1 \<le> run" and runr: "run \<le> unat r_bits" and rund: "unat dbit + run \<le> 8"
    and runs: "unat sbit + run \<le> 8"
    using r d s by (auto simp: run_def)
  have noov: "unat r_bits + unat dbit < 2 ^ 64"
    using dfit dlen by simp
  have uo: "unat ?o = 8 - run"
    unfolding run_def using d s noov by (rule offset_bit_count_run)
  have uw: "unat ?w = run"
    using uo run1 rund by (simp add: unat_sub_if_size word_size)
  have inb: "unat dbyte < length dst" "unat sbyte < length src"
    using dfit sfit r by auto
  have us: "unat (sbit + ?w) = unat sbit + run"
    using uw runs by (simp add: unat_plus_if' )
  have ud0: "unat (ucast dbit + ?w) = unat dbit + run"
    using uw rund by (simp add: unat_plus_if' unat_ucast_8_64)
  have ud: "unat (ucast (ucast dbit + ?w) :: uint8_t) = unat dbit + run"
    using ud0 rund by (simp add: unsigned_ucast_eq take_bit_nat_eq_self)
  have ur: "unat (r_bits - ?w) = unat r_bits - run"
    using uw runr by (simp add: unat_sub_if_size)
  have s8: "(sbit + ?w = 8) = (unat sbit + run = 8)"
    using us by (simp add: word_unat_eq_iff)
  have d8: "((ucast (ucast dbit + ?w) :: uint8_t) = 8) = (unat dbit + run = 8)"
    using ud by (simp add: word_unat_eq_iff)
  have r0: "(0 < r_bits - ?w) = (run \<noteq> unat r_bits)"
    using ur runr by (auto simp add: word_less_nat_alt)
  have sb1: "unat (sbyte + 1) = unat sbyte + 1"
    using inb slen by (simp add: unat_plus_if')
  have db1: "unat (dbyte + 1) = unat dbyte + 1"
    using inb dlen by (simp add: unat_plus_if')
  show ?thesis
    apply (subst bit_queue_bit_buffer_copy_loop.simps)
    apply (rule exI [of _ "if ucast (ucast dbit + ?w) = (8::uint8_t) then dbyte + 1 else dbyte"])
    apply (rule exI [of _ "if ucast (ucast dbit + ?w) = (8::uint8_t) then 0 else ucast (ucast dbit + ?w)"])
    apply (rule exI [of _ "if sbit + ?w = 8 then sbyte + 1 else sbyte"])
    apply (rule exI [of _ "if sbit + ?w = 8 then 0 else sbit + ?w"])
    apply (rule exI [of _ "r_bits - ?w"])
    using inb rund runs
    apply (simp add: Let_def dst1_def r0 ur s8 d8 sb1 db1 us ud)
    done
qed


lemma get_bit_update:
  "i < length buf \<Longrightarrow>
     get_bit (buf[i := b]) p = (if p div 8 = i then bit b (p mod 8) else get_bit buf p)"
  by (simp add: get_bit_def)

lemma in_byte_range:
  fixes p i d run :: nat
  assumes "d + run \<le> 8"
  shows "(p div 8 = i \<and> d \<le> p mod 8 \<and> p mod 8 < d + run) = (8 * i + d \<le> p \<and> p < 8 * i + d + run)"
proof
  assume l: "p div 8 = i \<and> d \<le> p mod 8 \<and> p mod 8 < d + run"
  have "p = 8 * (p div 8) + p mod 8" by simp
  with l show "8 * i + d \<le> p \<and> p < 8 * i + d + run" by linarith
next
  assume r: "8 * i + d \<le> p \<and> p < 8 * i + d + run"
  with assms have "8 * i \<le> p" "p < 8 * Suc i" by simp_all
  then have pi: "p div 8 = i" by (rule div_nat_eqI)
  have "p = 8 * (p div 8) + p mod 8" by simp
  with pi r show "p div 8 = i \<and> d \<le> p mod 8 \<and> p mod 8 < d + run" by linarith
qed

lemma get_bit_first_step:
  assumes d: "unat dbit < 8" and s: "unat sbit < 8" and o: "unat ofs = 8 - run"
    and rd: "unat dbit + run \<le> 8" and rs: "unat sbit + run \<le> 8"
    and inb: "i < length dst"
  shows "get_bit (dst[i := copy_byte (dst ! i) (src ! k) ofs sbit dbit]) p =
     (get_bit dst p \<or>
      (8 * i + unat dbit \<le> p \<and> p < 8 * i + unat dbit + run \<and>
       get_bit src (8 * k + unat sbit + (p - (8 * i + unat dbit)))))"
proof -
  have rd': "run \<le> 8 - unat dbit" and rs': "run \<le> 8 - unat sbit"
    using rd rs by simp_all
  note cb = copy_byte_bit [OF d s o rd' rs', of "dst ! i" "src ! k" "p mod 8"]
  show ?thesis
  proof (cases "8 * i + unat dbit \<le> p \<and> p < 8 * i + unat dbit + run")
    case True
    then have pi: "p div 8 = i" and pm: "unat dbit \<le> p mod 8" "p mod 8 < unat dbit + run"
      using in_byte_range [OF rd, of p i] by auto
    have "p = 8 * i + p mod 8"
      using pi by (metis mult_div_mod_eq)
    then have e: "p - (8 * i + unat dbit) = p mod 8 - unat dbit"
      by linarith
    have lt: "unat sbit + (p mod 8 - unat dbit) < 8" using pm rs by linarith
    have sd: "(8 * k + unat sbit + (p mod 8 - unat dbit)) div 8 = k"
      using lt by (simp add: div_nat_eqI)
    have sm: "(8 * k + unat sbit + (p mod 8 - unat dbit)) mod 8 = unat sbit + (p mod 8 - unat dbit)"
      using lt by (simp add: add.assoc)
    have "get_bit (dst[i := copy_byte (dst ! i) (src ! k) ofs sbit dbit]) p =
        bit (copy_byte (dst ! i) (src ! k) ofs sbit dbit) (p mod 8)"
      using inb pi by (simp add: get_bit_update)
    also have "\<dots> = (bit (dst ! i) (p mod 8) \<or> bit (src ! k) (unat sbit + (p mod 8 - unat dbit)))"
      using cb pm by simp
    also have "bit (dst ! i) (p mod 8) = get_bit dst p"
      using pi by (simp add: get_bit_def)
    also have "bit (src ! k) (unat sbit + (p mod 8 - unat dbit)) =
        get_bit src (8 * k + unat sbit + (p - (8 * i + unat dbit)))"
      unfolding e get_bit_def sd sm ..
    finally show ?thesis using True by simp
  next
    case False
    then have nr: "\<not> (p div 8 = i \<and> unat dbit \<le> p mod 8 \<and> p mod 8 < unat dbit + run)"
      using in_byte_range [OF rd, of p i] by simp
    show ?thesis
    proof (cases "p div 8 = i")
      case True
      then have "get_bit (dst[i := copy_byte (dst ! i) (src ! k) ofs sbit dbit]) p =
          bit (copy_byte (dst ! i) (src ! k) ofs sbit dbit) (p mod 8)"
        using inb by (simp add: get_bit_update)
      also have "\<dots> = bit (dst ! i) (p mod 8)"
        using cb nr True by auto
      also have "\<dots> = get_bit dst p"
        using True by (simp add: get_bit_def)
      finally show ?thesis using False by blast
    next
      case F2: False
      then have "get_bit (dst[i := copy_byte (dst ! i) (src ! k) ofs sbit dbit]) p = get_bit dst p"
        using inb by (simp add: get_bit_update)
      then show ?thesis using False by blast
    qed
  qed
qed

lemma copy_loop_correct:
  fixes dst src :: "uint8_t list"
  assumes r: "0 < unat r_bits" and d: "unat dbit < 8" and s: "unat sbit < 8"
    and dfit: "8 * unat dbyte + unat dbit + unat r_bits \<le> 8 * length dst"
    and sfit: "8 * unat sbyte + unat sbit + unat r_bits \<le> 8 * length src"
    and dlen: "length dst < 2 ^ 61" and slen: "length src < 2 ^ 61"
  shows "\<exists>dst'. bit_queue_bit_buffer_copy_loop dst src dbyte dbit sbyte sbit r_bits = Some (Inr dst') \<and>
     length dst' = length dst \<and>
     (\<forall>p. get_bit dst' p =
        (get_bit dst p \<or>
         (8 * unat dbyte + unat dbit \<le> p \<and> p < 8 * unat dbyte + unat dbit + unat r_bits \<and>
          get_bit src (8 * unat sbyte + unat sbit + (p - (8 * unat dbyte + unat dbit))))))"
  using assms
proof (induction "unat r_bits" arbitrary: dst dbyte dbit sbyte sbit r_bits rule: less_induct)
  case less
  define run where "run = min (unat r_bits) (min (8 - unat dbit) (8 - unat sbit))"
  define dst1 where "dst1 = dst[unat dbyte := copy_byte (dst ! unat dbyte) (src ! unat sbyte)
                      (offset_bit_count_of r_bits dbit sbit) sbit dbit]"
  define dp where "dp = 8 * unat dbyte + unat dbit"
  define sp where "sp = 8 * unat sbyte + unat sbit"
  have run1: "1 \<le> run" and runr: "run \<le> unat r_bits" and rund: "unat dbit + run \<le> 8"
    and runs: "unat sbit + run \<le> 8"
    using less.prems by (auto simp: run_def)
  have noov: "unat r_bits + unat dbit < 2 ^ 64"
    using less.prems by simp
  have uo: "unat (offset_bit_count_of r_bits dbit sbit) = 8 - run"
    unfolding run_def using less.prems(2,3) noov by (rule offset_bit_count_run)
  have inb: "unat dbyte < length dst"
    using less.prems by auto
  have first: "get_bit dst1 p =
     (get_bit dst p \<or> (dp \<le> p \<and> p < dp + run \<and> get_bit src (sp + (p - dp))))" for p
    unfolding dst1_def dp_def sp_def
    using less.prems(2,3) uo rund runs inb by (rule get_bit_first_step)
  have len1: "length dst1 = length dst" by (simp add: dst1_def)
  from copy_loop_step [OF less.prems(1-7), folded run_def, folded dst1_def]
  obtain dbyte' dbit' sbyte' sbit' r_bits' where
    eq: "bit_queue_bit_buffer_copy_loop dst src dbyte dbit sbyte sbit r_bits =
       (if run = unat r_bits then Some (Inr dst1)
        else bit_queue_bit_buffer_copy_loop dst1 src dbyte' dbit' sbyte' sbit' r_bits')"
    and ur: "unat r_bits' = unat r_bits - run" and d': "unat dbit' < 8" and s': "unat sbit' < 8"
    and dp': "8 * unat dbyte' + unat dbit' = dp + run"
    and sp': "8 * unat sbyte' + unat sbit' = sp + run"
    unfolding dp_def sp_def by blast
  show ?case
  proof (cases "run = unat r_bits")
    case True
    then show ?thesis
      using eq first len1 by (simp add: dp_def sp_def)
  next
    case False
    have lt: "unat r_bits' < unat r_bits" and pos: "0 < unat r_bits'"
      using ur run1 runr False by simp_all
    have df: "8 * unat dbyte' + unat dbit' + unat r_bits' \<le> 8 * length dst1"
      using dp' ur runr less.prems(4) by (simp add: len1 dp_def)
    have sf: "8 * unat sbyte' + unat sbit' + unat r_bits' \<le> 8 * length src"
      using sp' ur runr less.prems(5) by (simp add: sp_def)
    have dl: "length dst1 < 2 ^ 61" using less.prems(6) by (simp add: len1)
    from less.hyps [OF lt pos d' s' df sf dl less.prems(7)]
    obtain dst' where
      res: "bit_queue_bit_buffer_copy_loop dst1 src dbyte' dbit' sbyte' sbit' r_bits' = Some (Inr dst')"
      and len: "length dst' = length dst1"
      and bits: "\<And>p. get_bit dst' p =
        (get_bit dst1 p \<or>
         (dp + run \<le> p \<and> p < dp + run + unat r_bits' \<and> get_bit src (sp + run + (p - (dp + run)))))"
      unfolding dp' sp' by blast
    have "get_bit dst' p =
        (get_bit dst p \<or> (dp \<le> p \<and> p < dp + unat r_bits \<and> get_bit src (sp + (p - dp))))" for p
    proof (cases "p < dp + run")
      case True
      then show ?thesis using bits [of p] first [of p] runr by auto
    next
      case F: False
      then have e: "sp + run + (p - (dp + run)) = sp + (p - dp)" by simp
      have "dp + run + unat r_bits' = dp + unat r_bits" using ur runr by simp
      then show ?thesis using bits [of p] first [of p] F e by auto
    qed
    then show ?thesis
      using eq False res len len1 by (simp add: dp_def sp_def)
  qed
qed

lemma unat_times8:
  assumes "unat (x :: size_t) < 2 ^ 61"
  shows "unat (x * 8) = 8 * unat x"
proof -
  have "unat x * 8 < 2 ^ 64" using assms by simp
  then show ?thesis by (simp add: unat_word_ariths)
qed

lemma unat_dst_remaining:
  assumes "unat dst_size < 2 ^ 61" "unat dbyte \<le> unat dst_size" "unat dbit < 8"
    and "unat dbyte < unat dst_size \<or> unat dbit = 0"
  shows "unat (dst_remaining dst_size dbyte dbit) = 8 * unat dst_size - (8 * unat dbyte + unat dbit)"
proof -
  have a: "unat (dst_size - dbyte) = unat dst_size - unat dbyte"
    using assms(2) by (simp add: unat_sub_if_size)
  define x where "x = (dst_size - dbyte) * 8"
  have "unat (dst_size - dbyte) < 2 ^ 61"
    using assms(1) a by simp
  then have "unat ((dst_size - dbyte) * 8) = 8 * unat (dst_size - dbyte)"
    by (rule unat_times8)
  then have b: "unat x = 8 * (unat dst_size - unat dbyte)"
    using a by (simp only: x_def)
  have c: "unat dbit \<le> 8 * (unat dst_size - unat dbyte)"
    using assms(3,4) by auto
  show ?thesis
    unfolding dst_remaining_def x_def [symmetric]
    using b c by (simp add: unat_sub_if_size unat_ucast_8_64 diff_mult_distrib2)
qed

lemma unat_src_remaining:
  assumes "unat src_size < 2 ^ 61" "unat sbyte \<le> unat src_size" "unat sbit < 8"
    and "unat sbyte < unat src_size \<or> unat sbit = 0"
  shows "unat (src_remaining src_size sbyte sbit) = 8 * unat src_size - (8 * unat sbyte + unat sbit)"
proof -
  have a: "unat (src_size - sbyte) = unat src_size - unat sbyte"
    using assms(2) by (simp add: unat_sub_if_size)
  define x where "x = (src_size - sbyte) * 8"
  have "unat (src_size - sbyte) < 2 ^ 61"
    using assms(1) a by simp
  then have "unat ((src_size - sbyte) * 8) = 8 * unat (src_size - sbyte)"
    by (rule unat_times8)
  then have b: "unat x = 8 * (unat src_size - unat sbyte)"
    using a by (simp only: x_def)
  have c: "unat sbit \<le> 8 * (unat src_size - unat sbyte)"
    using assms(3,4) by auto
  show ?thesis
    unfolding src_remaining_def x_def [symmetric]
    using b c by (simp add: unat_sub_if_size diff_mult_distrib2)
qed

lemma unat_clip_bit_count:
  assumes "unat src_size < 2 ^ 61" "unat sbyte \<le> unat src_size" "unat sbit < 8"
    and "unat sbyte < unat src_size \<or> unat sbit = 0"
  shows "unat (clip_bit_count src_size sbyte sbit bit_count) =
     min (unat bit_count) (8 * unat src_size - (8 * unat sbyte + unat sbit))"
  using unat_src_remaining [OF assms]
  by (simp add: clip_bit_count_def word_less_nat_alt min_def)

lemma copy_too_small:
  assumes "\<not> copy_args_invalid dbyte dbit dst_size sbyte sbit src_size bit_count"
    and "unat dst_size < 2 ^ 61"
    and "unat dbyte < unat dst_size \<or> unat dbit = 0"
    and "8 * unat dst_size - (8 * unat dbyte + unat dbit) < unat bit_count"
  shows "bit_queue_bit_buffer_copy (Some dst) (Some src) dbyte dbit dst_size sbyte sbit src_size bit_count =
     Some (Inr (Some dst, - 1, Some EMSGSIZE))"
proof -
  have "unat dbyte \<le> unat dst_size" "unat dbit < 8"
    using assms(1) by (simp_all add: copy_args_invalid_def word_less_nat_alt word_le_nat_alt not_less not_le)
  then have "unat (dst_remaining dst_size dbyte dbit) = 8 * unat dst_size - (8 * unat dbyte + unat dbit)"
    using assms(2,3) by (intro unat_dst_remaining)
  then have "dst_remaining dst_size dbyte dbit < bit_count"
    using assms(4) by (simp add: word_less_nat_alt)
  then show ?thesis
    using assms(1) by (simp add: bit_queue_bit_buffer_copy_def)
qed

lemma copy_success:
  fixes dst src :: "uint8_t list"
  assumes inv: "\<not> copy_args_invalid dbyte dbit dst_size sbyte sbit src_size bit_count"
    and ld: "length dst = unat dst_size" and ls: "length src = unat src_size"
    and dlen: "length dst < 2 ^ 61" and slen: "length src < 2 ^ 61"
    and sstrict: "unat sbyte < unat src_size"
    and fit: "8 * unat dbyte + unat dbit + unat bit_count \<le> 8 * unat dst_size"
  defines "n \<equiv> min (unat bit_count) (8 * unat src_size - (8 * unat sbyte + unat sbit))"
  shows "\<exists>dst'. bit_queue_bit_buffer_copy (Some dst) (Some src) dbyte dbit dst_size sbyte sbit src_size bit_count =
       Some (Inr (Some dst', ucast (clip_bit_count src_size sbyte sbit bit_count), None)) \<and>
     unat (clip_bit_count src_size sbyte sbit bit_count) = n \<and> 0 < n \<and>
     length dst' = length dst \<and>
     (\<forall>p. get_bit dst' p =
        (get_bit dst p \<or>
         (8 * unat dbyte + unat dbit \<le> p \<and> p < 8 * unat dbyte + unat dbit + n \<and>
          get_bit src (8 * unat sbyte + unat sbit + (p - (8 * unat dbyte + unat dbit))))))"
proof -
  have v: "bit_count \<noteq> 0" "unat dbyte \<le> unat dst_size" "unat sbyte \<le> unat src_size"
    "unat dbit < 8" "unat sbit < 8"
    using inv by (simp_all add: copy_args_invalid_def word_less_nat_alt word_le_nat_alt not_less not_le)
  have bc: "0 < unat bit_count" using v(1) by (simp add: unat_gt_0)
  have dstrict: "unat dbyte < unat dst_size \<or> unat dbit = 0"
    using fit bc by auto
  have dr: "unat (dst_remaining dst_size dbyte dbit) = 8 * unat dst_size - (8 * unat dbyte + unat dbit)"
    using dlen v dstrict by (intro unat_dst_remaining) (simp_all add: ld)
  have nolt: "\<not> dst_remaining dst_size dbyte dbit < bit_count"
    using dr fit by (simp add: word_less_nat_alt)
  have uc: "unat (clip_bit_count src_size sbyte sbit bit_count) = n"
    unfolding n_def using slen v sstrict by (intro unat_clip_bit_count) (simp_all add: ls)
  have npos: "0 < n" using bc sstrict v(5) by (simp add: n_def)
  have nle: "n \<le> unat bit_count" "8 * unat sbyte + unat sbit + n \<le> 8 * length src"
    using sstrict v(5) by (simp_all add: n_def ls)
  have dfit: "8 * unat dbyte + unat dbit + unat (clip_bit_count src_size sbyte sbit bit_count) \<le> 8 * length dst"
    using fit nle uc by (simp add: ld)
  have sfit: "8 * unat sbyte + unat sbit + unat (clip_bit_count src_size sbyte sbit bit_count) \<le> 8 * length src"
    using nle uc by simp
  have pos: "0 < unat (clip_bit_count src_size sbyte sbit bit_count)"
    using uc npos by simp
  from copy_loop_correct [OF pos v(4) v(5) dfit sfit dlen slen]
  obtain dst' where
    res: "bit_queue_bit_buffer_copy_loop dst src dbyte dbit sbyte sbit
            (clip_bit_count src_size sbyte sbit bit_count) = Some (Inr dst')"
    and len: "length dst' = length dst"
    and bits: "\<forall>p. get_bit dst' p =
        (get_bit dst p \<or>
         (8 * unat dbyte + unat dbit \<le> p \<and> p < 8 * unat dbyte + unat dbit + n \<and>
          get_bit src (8 * unat sbyte + unat sbit + (p - (8 * unat dbyte + unat dbit)))))"
    unfolding uc by blast
  have "bit_queue_bit_buffer_copy (Some dst) (Some src) dbyte dbit dst_size sbyte sbit src_size bit_count =
       Some (Inr (Some dst', ucast (clip_bit_count src_size sbyte sbit bit_count), None))"
    using inv nolt res by (simp add: bit_queue_bit_buffer_copy_def)
  then show ?thesis using uc npos len bits by blast
qed

lemma get_bit_Cons:
  "get_bit (b # bs) p = (if p < 8 then bit b p else get_bit bs (p - 8))"
proof (cases "p < 8")
  case True
  then show ?thesis by (simp add: get_bit_def)
next
  case False
  then have "p div 8 = Suc ((p - 8) div 8)" "p mod 8 = (p - 8) mod 8"
    by (simp_all add: le_div_geq le_mod_geq)
  then show ?thesis using False by (simp add: get_bit_def)
qed

lemma bit_le_val: "bit (le_val bs) p = (p < 8 * length bs \<and> get_bit bs p)"
proof (induction bs arbitrary: p)
  case Nil
  then show ?case by simp
next
  case (Cons b bs)
  have "unat b AND push_bit 8 (le_val bs) = 0"
    by (rule bit_eqI) (auto simp add: bit_simps dest: bit_imp_le_length)
  then have "le_val (b # bs) = unat b OR push_bit 8 (le_val bs)"
    using disjunctive_add_eq_or [of "unat b" "push_bit 8 (le_val bs)"]
    by (simp add: push_bit_eq_mult)
  then show ?case
    using Cons.IH [of "p - 8"]
    by (auto simp add: get_bit_Cons bit_simps simp del: le_val.simps dest: bit_imp_le_length)
qed

lemma le_val_copied:
  assumes len: "length dst' = length dst"
    and fitd: "dp + n \<le> 8 * length dst" and fits: "sp + n \<le> 8 * length src"
    and bits: "\<forall>p. get_bit dst' p =
        (get_bit dst p \<or> (dp \<le> p \<and> p < dp + n \<and> get_bit src (sp + (p - dp))))"
  shows "le_val dst' = le_val dst OR push_bit dp (take_bit n (drop_bit sp (le_val src)))"
proof (rule bit_eqI)
  fix p
  show "bit (le_val dst') p = bit (le_val dst OR push_bit dp (take_bit n (drop_bit sp (le_val src)))) p"
    using fitd fits bits [rule_format, of p]
    by (auto simp add: bit_le_val len bit_simps)
qed

lemma copy_loop_out_of_bounds:
  "length dst \<le> unat dbyte \<or> length src \<le> unat sbyte \<Longrightarrow>
     bit_queue_bit_buffer_copy_loop dst src dbyte dbit sbyte sbit r_bits = Some (Inl OutOfBounds)"
  by (subst bit_queue_bit_buffer_copy_loop.simps) (simp add: Let_def)

lemma copy_returns_cases:
  assumes "bit_queue_bit_buffer_copy (Some dst) (Some src) dbyte dbit dst_size sbyte sbit src_size bit_count =
      Some (Inr (dst_opt, ret_val, e))"
  shows "(e = Some EINVAL \<and> dst_opt = Some dst \<and> ret_val = - 1 \<and>
            copy_args_invalid dbyte dbit dst_size sbyte sbit src_size bit_count) \<or>
         (e = Some EMSGSIZE \<and> dst_opt = Some dst \<and> ret_val = - 1 \<and>
            \<not> copy_args_invalid dbyte dbit dst_size sbyte sbit src_size bit_count \<and>
            dst_remaining dst_size dbyte dbit < bit_count) \<or>
         (e = None \<and> ret_val = ucast (clip_bit_count src_size sbyte sbit bit_count) \<and>
            \<not> copy_args_invalid dbyte dbit dst_size sbyte sbit src_size bit_count \<and>
            \<not> dst_remaining dst_size dbyte dbit < bit_count \<and>
            (\<exists>dst'. dst_opt = Some dst' \<and>
               bit_queue_bit_buffer_copy_loop dst src dbyte dbit sbyte sbit
                 (clip_bit_count src_size sbyte sbit bit_count) = Some (Inr dst')))"
  using assms
  by (auto simp add: bit_queue_bit_buffer_copy_def Let_def split: if_splits option.splits sum.splits)


lemma copy_returned_bits:
  fixes dst src :: "uint8_t list"
  assumes ld: "length dst = unat dst_size" and ls: "length src = unat src_size"
    and dlen: "length dst < 2 ^ 61" and slen: "length src < 2 ^ 61"
    and call: "bit_queue_bit_buffer_copy (Some dst) (Some src) dbyte dbit dst_size sbyte sbit src_size bit_count =
      Some (Inr (dst_opt, ret_val, None))"
  defines "dp \<equiv> 8 * unat dbyte + unat dbit" and "sp \<equiv> 8 * unat sbyte + unat sbit"
  defines "n \<equiv> unat (clip_bit_count src_size sbyte sbit bit_count)"
  shows "\<exists>dst'. dst_opt = Some dst' \<and> length dst' = length dst \<and>
     ret_val = ucast (clip_bit_count src_size sbyte sbit bit_count) \<and>
     dp + n \<le> 8 * length dst \<and> sp + n \<le> 8 * length src \<and>
     (\<forall>p. get_bit dst' p = (get_bit dst p \<or> (dp \<le> p \<and> p < dp + n \<and> get_bit src (sp + (p - dp))))) \<and>
     (\<forall>i. dp + n \<le> 8 * i \<or> 8 * i + 8 \<le> dp \<longrightarrow> dst' ! i = dst ! i) \<and>
     le_val dst' = le_val dst OR push_bit dp (take_bit n (drop_bit sp (le_val src)))"
proof -
  have inv: "\<not> copy_args_invalid dbyte dbit dst_size sbyte sbit src_size bit_count"
    and nolt: "\<not> dst_remaining dst_size dbyte dbit < bit_count"
    and ret: "ret_val = ucast (clip_bit_count src_size sbyte sbit bit_count)"
    and loop: "\<exists>dst'. dst_opt = Some dst' \<and>
             bit_queue_bit_buffer_copy_loop dst src dbyte dbit sbyte sbit
               (clip_bit_count src_size sbyte sbit bit_count) = Some (Inr dst')"
    using copy_returns_cases [OF call] by auto
  have v: "bit_count \<noteq> 0" "unat dbyte \<le> unat dst_size" "unat sbyte \<le> unat src_size"
    "unat dbit < 8" "unat sbit < 8"
    using inv by (simp_all add: copy_args_invalid_def word_less_nat_alt word_le_nat_alt not_less not_le)
  have ds: "unat dbyte < unat dst_size"
    using loop v(2) copy_loop_out_of_bounds [of dst dbyte src sbyte] ld
    by (cases "unat dbyte = unat dst_size") auto
  have ss: "unat sbyte < unat src_size"
    using loop v(3) copy_loop_out_of_bounds [of dst dbyte src sbyte] ls
    by (cases "unat sbyte = unat src_size") auto
  have dr: "unat (dst_remaining dst_size dbyte dbit) = 8 * unat dst_size - (8 * unat dbyte + unat dbit)"
    using dlen v ds by (intro unat_dst_remaining) (simp_all add: ld)
  have fit: "8 * unat dbyte + unat dbit + unat bit_count \<le> 8 * unat dst_size"
    using nolt dr ds v(4) by (simp add: word_less_nat_alt)
  from copy_success [OF inv ld ls dlen slen ss fit] call
  obtain dst' where d: "dst_opt = Some dst'" and len: "length dst' = length dst"
    and nle: "n \<le> unat bit_count" "n \<le> 8 * unat src_size - sp"
    and bits: "\<forall>p. get_bit dst' p = (get_bit dst p \<or> (dp \<le> p \<and> p < dp + n \<and> get_bit src (sp + (p - dp))))"
    by (auto simp add: n_def dp_def sp_def)
  have fd: "dp + n \<le> 8 * length dst"
    using fit nle by (simp add: dp_def ld)
  have fs: "sp + n \<le> 8 * length src"
    using nle ss v(5) by (simp add: sp_def ls)
  have bytes: "dst' ! i = dst ! i" if "dp + n \<le> 8 * i \<or> 8 * i + 8 \<le> dp" for i
  proof (rule bit_eqI)
    fix j
    assume "possible_bit TYPE(8 word) j"
    then have j: "j < 8" by (simp add: possible_bit_word)
    then have "(8 * i + j) div 8 = i" "(8 * i + j) mod 8 = j" by simp_all
    then have "bit (dst' ! i) j = get_bit dst' (8 * i + j)" "bit (dst ! i) j = get_bit dst (8 * i + j)"
      by (simp_all add: get_bit_def)
    then show "bit (dst' ! i) j = bit (dst ! i) j"
      using bits [rule_format, of "8 * i + j"] that j by auto
  qed
  have "le_val dst' = le_val dst OR push_bit dp (take_bit n (drop_bit sp (le_val src)))"
    using len fd fs bits by (rule le_val_copied)
  then show ?thesis using d len ret fd fs bits bytes by blast
qed

lemma copy_loop_iteration:
  fixes dst src :: "uint8_t list"
  assumes r: "0 < unat r_bits" and d: "unat dbit < 8" and s: "unat sbit < 8"
    and dfit: "8 * unat dbyte + unat dbit + unat r_bits \<le> 8 * length dst"
    and sfit: "8 * unat sbyte + unat sbit + unat r_bits \<le> 8 * length src"
    and dlen: "length dst < 2 ^ 61" and slen: "length src < 2 ^ 61"
  defines "run \<equiv> min (unat r_bits) (min (8 - unat dbit) (8 - unat sbit))"
  defines "dst1 \<equiv> dst[unat dbyte := copy_byte (dst ! unat dbyte) (src ! unat sbyte)
                      (offset_bit_count_of r_bits dbit sbit) sbit dbit]"
  shows "unat (8 - offset_bit_count_of r_bits dbit sbit) = run"
    and "bit_queue_bit_buffer_copy_loop dst src dbyte dbit sbyte sbit r_bits =
       (if run = unat r_bits then Some (Inr dst1)
        else bit_queue_bit_buffer_copy_loop dst1 src
               (if unat dbit + run = 8 then dbyte + 1 else dbyte)
               (if unat dbit + run = 8 then 0 else dbit + of_nat run)
               (if unat sbit + run = 8 then sbyte + 1 else sbyte)
               (if unat sbit + run = 8 then 0 else sbit + of_nat run)
               (r_bits - of_nat run))"
proof -
  let ?o = "offset_bit_count_of r_bits dbit sbit"
  let ?w = "8 - ?o"
  have run1: "1 \<le> run" and runr: "run \<le> unat r_bits" and rund: "unat dbit + run \<le> 8"
    and runs: "unat sbit + run \<le> 8"
    using r d s by (auto simp: run_def)
  have noov: "unat r_bits + unat dbit < 2 ^ 64"
    using dfit dlen by simp
  have uo: "unat ?o = 8 - run"
    unfolding run_def using d s noov by (rule offset_bit_count_run)
  show uw: "unat ?w = run"
    using uo run1 rund by (simp add: unat_sub_if_size word_size)
  then have w: "?w = of_nat run"
    by (metis of_nat_unat ucast_id)
  have inb: "unat dbyte < length dst" "unat sbyte < length src"
    using dfit sfit r by auto
  have us: "unat (sbit + ?w) = unat sbit + run"
    using uw runs by (simp add: unat_plus_if' )
  have ud0: "unat (ucast dbit + ?w) = unat dbit + run"
    using uw rund by (simp add: unat_plus_if' unat_ucast_8_64)
  have ud: "unat (ucast (ucast dbit + ?w) :: uint8_t) = unat dbit + run"
    using ud0 rund by (simp add: unsigned_ucast_eq take_bit_nat_eq_self)
  have "unat (dbit + of_nat run) = unat dbit + run"
    using rund by (simp add: unat_plus_if' unat_of_nat)
  then have dw: "(ucast (ucast dbit + ?w) :: uint8_t) = dbit + of_nat run"
    using ud by (simp add: word_unat_eq_iff)
  have ur: "unat (r_bits - ?w) = unat r_bits - run"
    using uw runr by (simp add: unat_sub_if_size)
  have us': "unat (sbit + of_nat run) = unat sbit + run"
    using us by (simp only: w)
  have s8: "(sbit + of_nat run = 8) = (unat sbit + run = 8)"
    using us' by (simp add: word_unat_eq_iff)
  have d8: "(dbit + of_nat run = 8) = (unat dbit + run = 8)"
    using ud by (simp add: word_unat_eq_iff dw)
  have r0: "(0 < r_bits - of_nat run) = (run \<noteq> unat r_bits)"
    using ur runr by (auto simp add: word_less_nat_alt w)
  have dw': "(ucast (ucast dbit + (of_nat run :: size_t)) :: uint8_t) = dbit + of_nat run"
    using dw by (simp only: w)
  show "bit_queue_bit_buffer_copy_loop dst src dbyte dbit sbyte sbit r_bits =
       (if run = unat r_bits then Some (Inr dst1)
        else bit_queue_bit_buffer_copy_loop dst1 src
               (if unat dbit + run = 8 then dbyte + 1 else dbyte)
               (if unat dbit + run = 8 then 0 else dbit + of_nat run)
               (if unat sbit + run = 8 then sbyte + 1 else sbyte)
               (if unat sbit + run = 8 then 0 else sbit + of_nat run)
               (r_bits - of_nat run))"
    apply (subst bit_queue_bit_buffer_copy_loop.simps)
    using inb
    apply (simp only: Let_def w dw' flip: dst1_def)
    apply (simp only: r0 s8 d8)
    apply simp
    done
qed

lemma count_bit_less:
  assumes "unat (c :: size_t) < 2 ^ 31" and "bit c n"
  shows "n < 31"
proof -
  have "bit (unat c) n" using assms(2) by (simp add: bit_unsigned_iff)
  moreover have "take_bit 31 (unat c) = unat c"
    using assms(1) by (simp add: take_bit_nat_eq_self)
  ultimately have "bit (take_bit 31 (unat c)) n" by simp
  then show ?thesis by (simp add: bit_take_bit_iff)
qed

lemma scast_ucast_count:
  assumes "unat (c :: size_t) < 2 ^ 31"
  shows "scast (ucast c :: int_t) = c"
proof (rule bit_eqI)
  fix n
  assume "possible_bit TYPE(size_t) n"
  then have n: "n < 64" by (simp add: possible_bit_word)
  show "bit (scast (ucast c :: int_t) :: size_t) n = bit c n"
  proof (cases "n < 31")
    case True
    then show ?thesis using n by (simp add: bit_simps min_def)
  next
    case False
    have "\<not> bit c n" "\<not> bit c 31"
      using False count_bit_less [OF assms] by blast+
    then show ?thesis using False n by (simp add: bit_simps min_def)
  qed
qed

lemma ucast_count_not_minus1:
  assumes "unat (c :: size_t) < 2 ^ 31"
  shows "(ucast c :: int_t) \<noteq> - 1"
proof
  assume "(ucast c :: int_t) = - 1"
  then have "bit (ucast c :: int_t) 31" by simp
  then have "bit c 31" by (simp add: bit_simps)
  then show False using count_bit_less [OF assms] by blast
qed

lemma unat_ucast_count:
  assumes "unat (c :: size_t) < 2 ^ 31"
  shows "unat (ucast c :: int_t) = unat c"
  using assms by (simp add: unsigned_ucast_eq take_bit_nat_eq_self)

lemma sint_ucast_count:
  assumes "unat (c :: size_t) < 2 ^ 31"
  shows "sint (ucast c :: int_t) = int (unat c)"
proof -
  have "\<not> bit (ucast c :: int_t) 31"
    using count_bit_less [OF assms, of 31] by (auto simp add: bit_simps)
  then have "\<not> bit (uint (ucast c :: int_t)) 31"
    by (simp add: bit_unsigned_iff)
  then have "sint (ucast c :: int_t) = take_bit 31 (uint (ucast c :: int_t))"
    by (simp add: sint_uint signed_take_bit_eq_if_positive)
  also have "uint (ucast c :: int_t) = int (unat (ucast c :: int_t))"
    by simp
  also have "\<dots> = int (unat c)"
    by (simp only: unat_ucast_count [OF assms])
  also have "take_bit 31 (int (unat c)) = int (unat c)"
    using assms by (simp only: take_bit_int_eq_self of_nat_0_le_iff of_nat_less_numeral_power_cancel_iff)
  finally show ?thesis .
qed

lemma unat_add_bit_offset:
  assumes "unat (c :: size_t) < 2 ^ 31"
  shows "unat (add_bit_offset b (ucast c)) = (unat b + unat c) mod 256"
proof -
  have bl: "unat b < 256" using unsigned_less [of b] by simp
  then have "unat b < 2 ^ 32" by simp
  then have b: "unat (ucast b :: int_t) = unat b"
    by (simp add: unsigned_ucast_eq take_bit_nat_eq_self)
  have "unat ((ucast b :: int_t) + ucast c) = unat b + unat c"
    using assms bl by (simp add: unat_plus_if' b unat_ucast_count)
  then show ?thesis
    by (simp add: add_bit_offset_def unsigned_ucast_eq take_bit_eq_mod)
qed

lemma unat_times8_le: "unat ((x :: size_t) * 8) \<le> 2 ^ 64 - 8"
proof -
  have "unat (x * 8) = (unat x * 8) mod 2 ^ 64"
    by (simp add: unat_word_ariths)
  also have "\<dots> = 8 * (unat x mod 2 ^ 61)"
    by (simp add: mult.commute mult_mod_right)
  also have "\<dots> \<le> 8 * (2 ^ 61 - 1)"
    by (rule mult_le_mono2) (simp add: less_Suc_eq_le [symmetric])
  finally show ?thesis by simp
qed

lemma unat_neg_small:
  assumes "x \<noteq> 0"
  shows "unat (- x :: size_t) = 2 ^ 64 - unat x"
proof -
  have "unat x \<noteq> 0" using assms by (simp add: unat_eq_zero)
  then show ?thesis
    using unat_sub_if_size [of 0 x] by (simp add: word_size)
qed

lemma ucast_bit_offset_zero: "((ucast (d :: uint8_t) :: size_t) = 0) = (d = 0)"
  using unat_ucast_8_64 [of d] by (metis unat_eq_zero)

lemma copy_at_end_out_of_bounds:
  assumes "bit_count \<noteq> 0" "dst_bit_offset < 8" "src_bit_offset < 8"
    and "bit_count \<le> src_buff_size * 8" and "src_byte_offset \<le> src_buff_size"
    and "dst_bit_offset \<noteq> 0" and "length dst = unat dst_buff_size"
  shows "bit_queue_bit_buffer_copy (Some dst) (Some src) dst_buff_size dst_bit_offset dst_buff_size
           src_byte_offset src_bit_offset src_buff_size bit_count = Some (Inl OutOfBounds)"
proof -
  have bcle: "unat bit_count \<le> 2 ^ 64 - 8"
    using assms(4) unat_times8_le [of src_buff_size] by (simp add: word_le_nat_alt)
  have u: "unat (- (ucast dst_bit_offset :: size_t)) = 2 ^ 64 - unat dst_bit_offset"
    using unat_neg_small [of "ucast dst_bit_offset"] assms(6)
    by (simp add: ucast_bit_offset_zero unat_ucast_8_64)
  have "unat dst_bit_offset < 8" using assms(2) by (simp add: word_less_nat_alt)
  then have "\<not> dst_remaining dst_buff_size dst_buff_size dst_bit_offset < bit_count"
    using u bcle by (simp add: dst_remaining_def word_less_nat_alt)
  moreover have "\<not> copy_args_invalid dst_buff_size dst_bit_offset dst_buff_size
             src_byte_offset src_bit_offset src_buff_size bit_count"
    using assms by (simp add: copy_args_invalid_def not_less not_le)
  ultimately show ?thesis
    using assms(7) by (simp add: bit_queue_bit_buffer_copy_def copy_loop_out_of_bounds)
qed

lemma copy_runs_loop:
  assumes "\<not> copy_args_invalid dst_byte_offset dst_bit_offset dst_buff_size
             src_byte_offset src_bit_offset src_buff_size bit_count"
    and "\<not> dst_remaining dst_buff_size dst_byte_offset dst_bit_offset < bit_count"
  shows "bit_queue_bit_buffer_copy (Some dst) (Some src) dst_byte_offset dst_bit_offset dst_buff_size
           src_byte_offset src_bit_offset src_buff_size bit_count =
         (case bit_queue_bit_buffer_copy_loop dst src dst_byte_offset dst_bit_offset
                 src_byte_offset src_bit_offset
                 (clip_bit_count src_buff_size src_byte_offset src_bit_offset bit_count) of
            None \<Rightarrow> None
          | Some (Inl f) \<Rightarrow> Some (Inl f)
          | Some (Inr dst') \<Rightarrow>
              Some (Inr (Some dst',
                ucast (clip_bit_count src_buff_size src_byte_offset src_bit_offset bit_count), None)))"
  using assms by (simp add: bit_queue_bit_buffer_copy_def Let_def)

lemma copy_EINVAL_iff:
  "bit_queue_bit_buffer_copy (Some dst) (Some src) dst_byte_offset dst_bit_offset dst_buff_size
       src_byte_offset src_bit_offset src_buff_size bit_count =
     Some (Inr (Some dst, - 1, Some EINVAL)) \<longleftrightarrow>
   copy_args_invalid dst_byte_offset dst_bit_offset dst_buff_size
       src_byte_offset src_bit_offset src_buff_size bit_count"
  by (auto simp add: bit_queue_bit_buffer_copy_def Let_def split: option.splits sum.splits)

lemma copy_loop_result_not_error:
  "(case r of None \<Rightarrow> None | Some (Inl f) \<Rightarrow> Some (Inl f)
      | Some (Inr dst') \<Rightarrow> Some (Inr (Some dst', c, None))) \<noteq>
   Some (Inr (dst_opt, ret_val, Some e))"
  by (simp split: option.splits sum.splits)

lemma get_bit_replicate_zero: "p < 8 * m \<Longrightarrow> \<not> get_bit (replicate m 0) p"
  by (simp add: get_bit_def less_mult_imp_div_less mult.commute)

lemma le_val_replicate_zero: "le_val (replicate m 0) = 0"
  by (rule bit_eqI) (simp add: bit_le_val get_bit_replicate_zero)

lemma copy_aligned_reference:
  fixes dst src srcA :: "uint8_t list"
  assumes inv: "\<not> copy_args_invalid dbyte dbit dst_size sbyte sbit src_size bit_count"
    and ld: "length dst = unat dst_size" and ls: "length src = unat src_size"
    and dlen: "length dst < 2 ^ 61" and slen: "length src < 2 ^ 61"
    and sstrict: "unat sbyte < unat src_size"
    and fit: "8 * unat dbyte + unat dbit + unat bit_count \<le> 8 * unat dst_size"
    and lsA: "length srcA = unat srcA_size" and sAlen: "length srcA < 2 ^ 61"
    and nA: "unat (clip_bit_count src_size sbyte sbit bit_count) \<le> 8 * length srcA"
    and same: "take_bit (unat (clip_bit_count src_size sbyte sbit bit_count)) (le_val srcA) =
                 take_bit (unat (clip_bit_count src_size sbyte sbit bit_count))
                   (drop_bit (8 * unat sbyte + unat sbit) (le_val src))"
  defines "c \<equiv> clip_bit_count src_size sbyte sbit bit_count"
  shows "\<exists>dst' A.
     bit_queue_bit_buffer_copy (Some dst) (Some src) dbyte dbit dst_size sbyte sbit src_size bit_count =
       Some (Inr (Some dst', ucast c, None)) \<and>
     bit_queue_bit_buffer_copy (Some (replicate (length dst) 0)) (Some srcA) 0 0 dst_size 0 0 srcA_size c =
       Some (Inr (Some A, ucast c, None)) \<and>
     length dst' = length dst \<and> length A = length dst \<and>
     (\<forall>p. get_bit dst' p =
        (get_bit dst p \<or>
         (8 * unat dbyte + unat dbit \<le> p \<and> p < 8 * unat dbyte + unat dbit + unat c \<and>
          get_bit src (8 * unat sbyte + unat sbit + (p - (8 * unat dbyte + unat dbit)))))) \<and>
     le_val dst' = le_val dst OR push_bit (8 * unat dbyte + unat dbit) (le_val A)"
proof -
  let ?dp = "8 * unat dbyte + unat dbit" and ?sp = "8 * unat sbyte + unat sbit"
  have nA': "unat c \<le> 8 * length srcA"
    using nA by (simp add: c_def)
  have same': "take_bit (unat c) (drop_bit ?sp (le_val src)) = take_bit (unat c) (le_val srcA)"
    using same by (simp add: c_def)
  from copy_success [OF inv ld ls dlen slen sstrict fit, folded c_def]
  obtain dst' where
    call: "bit_queue_bit_buffer_copy (Some dst) (Some src) dbyte dbit dst_size sbyte sbit src_size bit_count =
       Some (Inr (Some dst', ucast c, None))"
    and uc: "unat c = min (unat bit_count) (8 * unat src_size - ?sp)" and cpos: "0 < unat c"
    and len: "length dst' = length dst"
    and bits: "\<forall>p. get_bit dst' p =
        (get_bit dst p \<or> (?dp \<le> p \<and> p < ?dp + unat c \<and> get_bit src (?sp + (p - ?dp))))"
    by (auto simp add: c_def)
  have v: "unat sbit < 8"
    using inv by (simp add: copy_args_invalid_def word_less_nat_alt not_le)
  have fd: "?dp + unat c \<le> 8 * length dst"
    using fit uc by (simp add: ld)
  have fs: "?sp + unat c \<le> 8 * length src"
    using uc sstrict v by (simp add: ls)
  have val: "le_val dst' = le_val dst OR push_bit ?dp (take_bit (unat c) (drop_bit ?sp (le_val src)))"
    using len fd fs bits by (rule le_val_copied)
  \<comment> \<open>the aligned copy of the same bits into a cleared buffer\<close>
  have cA: "unat (srcA_size * 8) = 8 * unat srcA_size"
    using sAlen by (intro unat_times8) (simp add: lsA)
  have srcA_pos: "0 < unat srcA_size"
    using nA' cpos by (auto simp add: lsA)
  have invA: "\<not> copy_args_invalid 0 0 dst_size 0 0 srcA_size c"
    using cpos nA' cA by (auto simp add: copy_args_invalid_def word_less_nat_alt lsA unat_gt_0)
  have ldA: "length (replicate (length dst) (0 :: uint8_t)) = unat dst_size"
    by (simp add: ld)
  have dlenA: "length (replicate (length dst) (0 :: uint8_t)) < 2 ^ 61"
    using dlen by simp
  have fitA: "8 * unat (0 :: size_t) + unat (0 :: uint8_t) + unat c \<le> 8 * unat dst_size"
    using fd by (simp add: ld)
  have sA: "unat (0 :: size_t) < unat srcA_size"
    using srcA_pos by simp
  from copy_success [OF invA ldA lsA dlenA sAlen sA fitA]
  obtain A where
    callA: "bit_queue_bit_buffer_copy (Some (replicate (length dst) 0)) (Some srcA) 0 0 dst_size 0 0 srcA_size c =
       Some (Inr (Some A, ucast (clip_bit_count srcA_size 0 0 c), None))"
    and ucA: "unat (clip_bit_count srcA_size 0 0 c) = min (unat c) (8 * unat srcA_size)"
    and lenA: "length A = length dst"
    and bitsA: "\<forall>p. get_bit A p =
        (get_bit (replicate (length dst) 0) p \<or> (p < unat (clip_bit_count srcA_size 0 0 c) \<and> get_bit srcA p))"
    by auto
  have clipA: "clip_bit_count srcA_size 0 0 c = c"
    using ucA nA' by (simp add: word_unat_eq_iff lsA)
  have bitsA': "\<forall>p. get_bit A p =
        (get_bit (replicate (length dst) 0) p \<or> (0 \<le> p \<and> p < 0 + unat c \<and> get_bit srcA (0 + (p - 0))))"
    using bitsA by (simp add: clipA)
  have "le_val A = le_val (replicate (length dst) 0) OR push_bit 0 (take_bit (unat c) (drop_bit 0 (le_val srcA)))"
    using fd nA' by (intro le_val_copied [OF _ _ _ bitsA']) (simp_all add: lenA)
  then have valA: "le_val A = take_bit (unat c) (le_val srcA)"
    by (simp add: le_val_replicate_zero)
  have "le_val dst' = le_val dst OR push_bit ?dp (le_val A)"
    using val valA same' by simp
  then show ?thesis
    using call callA len lenA bits by (auto simp add: clipA)
qed

section \<open>The queue operations\<close>

lemma copy_call_cases:
  assumes "bit_queue_bit_buffer_copy dst_opt src_opt dbyte dbit dst_size sbyte sbit src_size bit_count =
      Some (Inr (dst', ret_val, e))"
  shows "ret_val = - 1 \<or>
         (ret_val = ucast (clip_bit_count src_size sbyte sbit bit_count) \<and>
          \<not> copy_args_invalid dbyte dbit dst_size sbyte sbit src_size bit_count \<and>
          \<not> dst_remaining dst_size dbyte dbit < bit_count)"
  using assms
  by (auto simp add: bit_queue_bit_buffer_copy_def Let_def split: if_splits option.splits sum.splits)

lemma clip_bit_count_le: "clip_bit_count src_size sbyte sbit bit_count \<le> bit_count"
  by (auto simp add: clip_bit_count_def)

lemma cursor_advance:
  fixes byte sz c :: size_t and bit_off :: uint8_t
  assumes c: "unat c < 2 ^ 31" and b: "unat byte < unat sz"
    and fit: "8 * unat byte + unat bit_off + unat c \<le> 8 * unat sz"
    and small: "unat sz < 2 ^ 28"
  defines "bit' \<equiv> add_bit_offset bit_off (ucast c)"
  defines "byte' \<equiv> byte + ucast (bit' div 8)"
  shows "bit' mod 8 < 8" and "(if byte' = sz then 0 else byte') < sz"
proof -
  have ub: "unat bit' = (unat bit_off + unat c) mod 256"
    unfolding bit'_def using c by (rule unat_add_bit_offset)
  have "unat (bit' mod 8) = unat bit' mod 8"
    by (simp add: unat_mod)
  then show "bit' mod 8 < 8"
    by (simp add: word_less_nat_alt)
  have "unat (bit' div 8) = unat bit' div 8"
    by (simp add: unat_div)
  then have ud: "unat (ucast (bit' div 8) :: size_t) = (unat bit_off + unat c) mod 256 div 8"
    by (simp add: unat_ucast_8_64 ub)
  have "(unat bit_off + unat c) mod 256 div 8 \<le> (unat bit_off + unat c) div 8"
    by (rule div_le_mono) simp
  also have "\<dots> \<le> unat sz - unat byte"
    using fit by simp
  finally have le: "(unat bit_off + unat c) mod 256 div 8 \<le> unat sz - unat byte" .
  then have "unat byte + (unat bit_off + unat c) mod 256 div 8 < 2 ^ 64"
    using b small by simp
  then have "unat byte' = unat byte + (unat bit_off + unat c) mod 256 div 8"
    unfolding byte'_def by (simp add: unat_plus_if' ud)
  then have "unat byte' \<le> unat sz"
    using le b by simp
  then show "(if byte' = sz then 0 else byte') < sz"
    using b by (auto simp add: word_less_nat_alt word_unat_eq_iff)
qed


lemma write_step_inv:
  fixes bq :: bit_queue
  assumes copy: "bit_queue_bit_buffer_copy (buffer bq) (Some src) (w_byte_offset bq) (w_bit_offset bq)
        (buffer_size bq) bb sb sz r_bits = Some (Inr (dst', ret_val, e))"
    and ok: "ret_val \<noteq> - 1" and inv: "cursor_inv bq"
    and small: "unat (buffer_size bq) < 2 ^ 28"
    and room: "unat (written_bits bq) + unat r_bits \<le> 8 * unat (buffer_size bq)"
  defines "w_bit' \<equiv> add_bit_offset (w_bit_offset bq) ret_val"
  defines "w_byte' \<equiv> w_byte_offset bq + ucast (w_bit' div 8)"
  defines "bq' \<equiv> bq\<lparr> buffer := dst', w_bit_offset := w_bit' mod 8,
                     w_byte_offset := (if w_byte' = buffer_size bq then 0 else w_byte'),
                     written_bits := written_bits bq + scast ret_val \<rparr>"
  shows "cursor_inv bq'"
    and "unat (written_bits bq') + unat (r_bits - scast ret_val) \<le> 8 * unat (buffer_size bq')"
proof -
  let ?c = "clip_bit_count sz bb sb r_bits"
  let ?n = "unat (buffer_size bq)"
  have ret: "ret_val = ucast ?c"
    and valid: "\<not> copy_args_invalid (w_byte_offset bq) (w_bit_offset bq) (buffer_size bq) bb sb sz r_bits"
    and space: "\<not> dst_remaining (buffer_size bq) (w_byte_offset bq) (w_bit_offset bq) < r_bits"
    using copy_call_cases [OF copy] ok by auto
  have i: "unat (r_byte_offset bq) < ?n" "unat (r_bit_offset bq) < 8"
    "unat (w_byte_offset bq) < ?n" "unat (w_bit_offset bq) < 8"
    "unat (written_bits bq) \<le> unat (buffer_size bq * 8)"
    using inv by (simp_all add: cursor_inv_def word_less_nat_alt word_le_nat_alt)
  have cap: "unat (buffer_size bq * 8) = 8 * ?n"
    using small by (intro unat_times8) simp
  have cr: "unat ?c \<le> unat r_bits"
    using clip_bit_count_le [of sz bb sb r_bits] by (simp add: word_le_nat_alt)
  have c31: "unat ?c < 2 ^ 31"
    using cr room small by simp
  have sc: "scast ret_val = ?c"
    unfolding ret using c31 by (rule scast_ucast_count)
  have dr: "unat (dst_remaining (buffer_size bq) (w_byte_offset bq) (w_bit_offset bq)) =
      8 * ?n - (8 * unat (w_byte_offset bq) + unat (w_bit_offset bq))"
    using small i by (intro unat_dst_remaining) simp_all
  have fit: "8 * unat (w_byte_offset bq) + unat (w_bit_offset bq) + unat ?c \<le> 8 * ?n"
    using space dr cr i by (simp add: word_less_nat_alt)
  note adv = cursor_advance [OF c31 i(3) fit small, folded ret, folded w_bit'_def, folded w_byte'_def]
  have wr: "unat (written_bits bq + ?c) = unat (written_bits bq) + unat ?c"
    using room cr small by (simp add: unat_plus_if')
  have rr: "unat (r_bits - ?c) = unat r_bits - unat ?c"
    using cr by (simp add: unat_sub_if_size)
  show "cursor_inv bq'"
    using inv adv wr cr room cap
    by (simp add: cursor_inv_def bq'_def sc word_le_nat_alt)
  show "unat (written_bits bq') + unat (r_bits - scast ret_val) \<le> 8 * unat (buffer_size bq')"
    using wr rr cr room by (simp add: bq'_def sc)
qed

lemma write_loop_inv:
  assumes "bit_queue_write_bits_loop bq src sz bb bbit r_bits = Some (Inr (bq', ret_val, e))"
    and "cursor_inv bq" and "unat (buffer_size bq) < 2 ^ 28"
    and "unat (written_bits bq) + unat r_bits \<le> 8 * unat (buffer_size bq)"
  shows "cursor_inv bq' \<and> buffer_size bq' = buffer_size bq"
proof -
  have "\<forall>bq' ret_val e. y = Inr (bq', ret_val, e) \<longrightarrow> cursor_inv bq \<longrightarrow>
         unat (buffer_size bq) < 2 ^ 28 \<longrightarrow>
         unat (written_bits bq) + unat r_bits \<le> 8 * unat (buffer_size bq) \<longrightarrow>
         cursor_inv bq' \<and> buffer_size bq' = buffer_size bq"
    if "bit_queue_write_bits_loop bq src sz bb bbit r_bits = Some y" for y
    using that
  proof (induction bq src sz bb bbit r_bits y
      rule: bit_queue_write_bits_loop.raw_induct [rotated 1, consumes 1, case_names step])
    case (step loop bq src sz bb bbit r_bits y)
    show ?case
    proof (intro allI impI)
      fix bq' ret_val e
      assume y: "y = Inr (bq', ret_val, e)" and inv: "cursor_inv bq"
        and small: "unat (buffer_size bq) < 2 ^ 28"
        and room: "unat (written_bits bq) + unat r_bits \<le> 8 * unat (buffer_size bq)"
      from step.hyps y obtain dst1 ret1 e1 where
        copy: "bit_queue_bit_buffer_copy (buffer bq) (Some src) (w_byte_offset bq) (w_bit_offset bq)
          (buffer_size bq) bb (ucast bbit) sz r_bits = Some (Inr (dst1, ret1, e1))"
        by (auto split: option.splits sum.splits)
      show "cursor_inv bq' \<and> buffer_size bq' = buffer_size bq"
      proof (cases "ret1 = - 1")
        case True
        then have "bq' = bq\<lparr>buffer := dst1\<rparr>"
          using step.hyps copy y by simp
        then show ?thesis using inv by (simp add: cursor_inv_def)
      next
        case False
        define w_bit' where "w_bit' = add_bit_offset (w_bit_offset bq) ret1"
        define w_byte' where "w_byte' = w_byte_offset bq + ucast (w_bit' div 8)"
        define bq1 where "bq1 = bq\<lparr> buffer := dst1, w_bit_offset := w_bit' mod 8,
                     w_byte_offset := (if w_byte' = buffer_size bq then 0 else w_byte'),
                     written_bits := written_bits bq + scast ret1 \<rparr>"
        note st = write_step_inv [OF copy False inv small room, folded w_bit'_def, folded w_byte'_def,
            folded bq1_def]
        have bs: "buffer_size bq1 = buffer_size bq" by (simp add: bq1_def)
        show ?thesis
        proof (cases "0 < r_bits - scast ret1")
          case True
          then have "loop bq1 src sz
              (bb + ucast (add_bit_offset bbit ret1 div 8)) (add_bit_offset bbit ret1 mod 8)
              (r_bits - scast ret1) = Some y"
            using step.hyps copy False
            by (auto simp add: Let_def bq1_def w_byte'_def w_bit'_def)
          from step.IH [OF this] y st small bs show ?thesis by simp
        next
          case F: False
          then have "bq' = bq1"
            using step.hyps copy False y
            by (auto simp add: Let_def bq1_def w_byte'_def w_bit'_def)
          then show ?thesis using st bs by simp
        qed
      qed
    qed
  qed
  then show ?thesis using assms by blast
qed

lemma read_step_inv:
  fixes bq :: bit_queue
  assumes copy: "bit_queue_bit_buffer_copy dst_opt (buffer bq) bb bbit sz (r_byte_offset bq)
        (ucast (r_bit_offset bq)) (buffer_size bq) r_bits = Some (Inr (dst', ret_val, e))"
    and ok: "ret_val \<noteq> - 1" and inv: "cursor_inv bq"
    and small: "unat (buffer_size bq) < 2 ^ 28"
    and data: "unat r_bits \<le> unat (written_bits bq)"
  defines "r_bit' \<equiv> add_bit_offset (r_bit_offset bq) ret_val"
  defines "r_byte' \<equiv> r_byte_offset bq + ucast (r_bit' div 8)"
  defines "bq' \<equiv> bq\<lparr> r_bit_offset := (if r_byte' = buffer_size bq then 0 else r_bit' mod 8),
                     r_byte_offset := (if r_byte' = buffer_size bq then 0 else r_byte'),
                     written_bits := written_bits bq - scast ret_val \<rparr>"
  shows "cursor_inv bq'"
    and "unat (r_bits - scast ret_val) \<le> unat (written_bits bq')"
proof -
  let ?c = "clip_bit_count (buffer_size bq) (r_byte_offset bq) (ucast (r_bit_offset bq)) r_bits"
  let ?n = "unat (buffer_size bq)"
  have ret: "ret_val = ucast ?c"
    using copy_call_cases [OF copy] ok by auto
  have i: "unat (r_byte_offset bq) < ?n" "unat (r_bit_offset bq) < 8"
    "unat (w_byte_offset bq) < ?n" "unat (w_bit_offset bq) < 8"
    "unat (written_bits bq) \<le> unat (buffer_size bq * 8)"
    using inv by (simp_all add: cursor_inv_def word_less_nat_alt word_le_nat_alt)
  have cap: "unat (buffer_size bq * 8) = 8 * ?n"
    using small by (intro unat_times8) simp
  have cr: "unat ?c \<le> unat r_bits"
    using clip_bit_count_le [of "buffer_size bq" "r_byte_offset bq" "ucast (r_bit_offset bq)" r_bits]
    by (simp add: word_le_nat_alt)
  have c31: "unat ?c < 2 ^ 31"
    using cr data i(5) cap small by simp
  have sc: "scast ret_val = ?c"
    unfolding ret using c31 by (rule scast_ucast_count)
  have "unat ?c = min (unat r_bits)
      (8 * ?n - (8 * unat (r_byte_offset bq) + unat (ucast (r_bit_offset bq) :: size_t)))"
    using small i by (intro unat_clip_bit_count) (simp_all add: unat_ucast_8_64)
  then have fit: "8 * unat (r_byte_offset bq) + unat (r_bit_offset bq) + unat ?c \<le> 8 * ?n"
    using i by (simp add: unat_ucast_8_64)
  note adv = cursor_advance [OF c31 i(1) fit small, folded ret, folded r_bit'_def, folded r_byte'_def]
  have wr: "unat (written_bits bq - ?c) = unat (written_bits bq) - unat ?c"
    using data cr by (simp add: unat_sub_if_size)
  have rr: "unat (r_bits - ?c) = unat r_bits - unat ?c"
    using cr by (simp add: unat_sub_if_size)
  have z: "(0 :: size_t) < buffer_size bq"
    using i(1) by (simp add: word_less_nat_alt)
  show "cursor_inv bq'"
    using inv adv wr i(5) z
    by (auto simp add: cursor_inv_def bq'_def sc word_le_nat_alt split: if_splits)
  show "unat (r_bits - scast ret_val) \<le> unat (written_bits bq')"
    using wr rr data by (simp add: bq'_def sc)
qed

lemma read_loop_inv:
  assumes "bit_queue_read_bits_loop bq dst sz bb bbit r_bits = Some (Inr (bq', dst', ret_val, e))"
    and "cursor_inv bq" and "unat (buffer_size bq) < 2 ^ 28"
    and "unat r_bits \<le> unat (written_bits bq)"
  shows "cursor_inv bq'"
proof -
  have "\<forall>bq' dst' ret_val e. y = Inr (bq', dst', ret_val, e) \<longrightarrow> cursor_inv bq \<longrightarrow>
         unat (buffer_size bq) < 2 ^ 28 \<longrightarrow> unat r_bits \<le> unat (written_bits bq) \<longrightarrow>
         cursor_inv bq'"
    if "bit_queue_read_bits_loop bq dst sz bb bbit r_bits = Some y" for y
    using that
  proof (induction bq dst sz bb bbit r_bits y
      rule: bit_queue_read_bits_loop.raw_induct [rotated 1, consumes 1, case_names step])
    case (step loop bq dst sz bb bbit r_bits y)
    show ?case
    proof (intro allI impI)
      fix bq' dst' ret_val e
      assume y: "y = Inr (bq', dst', ret_val, e)" and inv: "cursor_inv bq"
        and small: "unat (buffer_size bq) < 2 ^ 28"
        and data: "unat r_bits \<le> unat (written_bits bq)"
      from step.hyps y obtain dst1 ret1 e1 where
        copy: "bit_queue_bit_buffer_copy (Some dst) (buffer bq) bb bbit sz (r_byte_offset bq)
          (ucast (r_bit_offset bq)) (buffer_size bq) r_bits = Some (Inr (dst1, ret1, e1))"
        by (auto split: option.splits sum.splits)
      show "cursor_inv bq'"
      proof (cases "ret1 = - 1")
        case True
        then have "bq' = bq"
          using step.hyps copy y by (simp add: Let_def)
        then show ?thesis using inv by simp
      next
        case False
        define r_bit' where "r_bit' = add_bit_offset (r_bit_offset bq) ret1"
        define r_byte' where "r_byte' = r_byte_offset bq + ucast (r_bit' div 8)"
        define bq1 where "bq1 = bq\<lparr> r_bit_offset := (if r_byte' = buffer_size bq then 0 else r_bit' mod 8),
                     r_byte_offset := (if r_byte' = buffer_size bq then 0 else r_byte'),
                     written_bits := written_bits bq - scast ret1 \<rparr>"
        note st = read_step_inv [OF copy False inv small data, folded r_bit'_def, folded r_byte'_def,
            folded bq1_def]
        have bs: "buffer_size bq1 = buffer_size bq" by (simp add: bq1_def)
        show ?thesis
        proof (cases "0 < r_bits - scast ret1")
          case True
          then have "loop bq1 (case dst1 of None \<Rightarrow> dst | Some b \<Rightarrow> b) sz
              (bb + ucast (add_bit_offset bbit ret1 div 8)) (add_bit_offset bbit ret1 mod 8)
              (r_bits - scast ret1) = Some y"
            using step.hyps copy False
            by (auto simp add: Let_def bq1_def r_byte'_def r_bit'_def)
          from step.IH [OF this] y st small bs show ?thesis by simp
        next
          case F: False
          then have "bq' = bq1"
            using step.hyps copy False y
            by (auto simp add: Let_def bq1_def r_byte'_def r_bit'_def)
          then show ?thesis using st by simp
        qed
      qed
    qed
  qed
  then show ?thesis using assms by blast
qed

lemma write_loop_buffer_size:
  assumes "bit_queue_write_bits_loop bq src sz bb bbit r_bits = Some (Inr (bq', ret_val, e))"
  shows "buffer_size bq' = buffer_size bq"
proof -
  have "\<forall>bq' ret_val e. y = Inr (bq', ret_val, e) \<longrightarrow> buffer_size bq' = buffer_size bq"
    if "bit_queue_write_bits_loop bq src sz bb bbit r_bits = Some y" for y
    using that
  proof (induction bq src sz bb bbit r_bits y
      rule: bit_queue_write_bits_loop.raw_induct [rotated 1, consumes 1, case_names step])
    case (step loop bq src sz bb bbit r_bits y)
    then show ?case
      by (fastforce simp add: Let_def split: option.splits sum.splits if_splits prod.splits)
  qed
  then show ?thesis using assms by blast
qed

lemma read_loop_buffer_size:
  assumes "bit_queue_read_bits_loop bq dst sz bb bbit r_bits = Some (Inr (bq', dst', ret_val, e))"
  shows "buffer_size bq' = buffer_size bq"
proof -
  have "\<forall>bq' dst' ret_val e. y = Inr (bq', dst', ret_val, e) \<longrightarrow> buffer_size bq' = buffer_size bq"
    if "bit_queue_read_bits_loop bq dst sz bb bbit r_bits = Some y" for y
    using that
  proof (induction bq dst sz bb bbit r_bits y
      rule: bit_queue_read_bits_loop.raw_induct [rotated 1, consumes 1, case_names step])
    case (step loop bq dst sz bb bbit r_bits y)
    then show ?case
      by (fastforce simp add: Let_def split: option.splits sum.splits if_splits prod.splits)
  qed
  then show ?thesis using assms by blast
qed

lemma write_bits_inv:
  assumes call: "bit_queue_write_bits (Some q) buffer_arg buffer_size_arg bit_count =
      Some (Inr (Some q', ret_val, e))"
  shows "buffer_size q' = buffer_size q"
    and "cursor_inv q \<Longrightarrow> unat (buffer_size q) < 2 ^ 28 \<Longrightarrow> cursor_inv q'"
proof -
  show "buffer_size q' = buffer_size q"
    using call
    by (auto simp add: bit_queue_write_bits_def split: option.splits if_splits sum.splits
        dest: write_loop_buffer_size)
  assume inv: "cursor_inv q" and small: "unat (buffer_size q) < 2 ^ 28"
  have cap: "unat (buffer_size q * 8) = 8 * unat (buffer_size q)"
    using small by (intro unat_times8) simp
  have w: "unat (written_bits q) \<le> 8 * unat (buffer_size q)"
    using inv cap by (simp add: cursor_inv_def word_le_nat_alt)
  have room: "unat (written_bits q) + unat bit_count \<le> 8 * unat (buffer_size q)"
    if "fst (bit_queue_has_space (Some q) bit_count)"
  proof -
    have "bit_count \<le> buffer_size q * 8 - written_bits q"
      using that by (simp add: bit_queue_has_space_def split: if_splits)
    moreover have "unat (buffer_size q * 8 - written_bits q) = 8 * unat (buffer_size q) - unat (written_bits q)"
      using w cap by (simp add: unat_sub_if_size)
    ultimately show ?thesis using w by (simp add: word_le_nat_alt)
  qed
  show "cursor_inv q'"
    using call inv small room
    by (auto simp add: bit_queue_write_bits_def split: option.splits if_splits sum.splits
        dest: write_loop_inv)
qed

lemma read_bits_inv:
  assumes call: "bit_queue_read_bits (Some q) buffer_arg buffer_size_arg bit_count =
      Some (Inr (Some q', buffer_arg', ret_val, e))"
  shows "buffer_size q' = buffer_size q"
    and "cursor_inv q \<Longrightarrow> unat (buffer_size q) < 2 ^ 28 \<Longrightarrow> cursor_inv q'"
proof -
  show "buffer_size q' = buffer_size q"
    using call
    by (auto simp add: bit_queue_read_bits_def split: option.splits if_splits sum.splits
        dest: read_loop_buffer_size)
  assume inv: "cursor_inv q" and small: "unat (buffer_size q) < 2 ^ 28"
  have data: "unat bit_count \<le> unat (written_bits q)"
    if "fst (bit_queue_has_data (Some q) bit_count)"
    using that by (simp add: bit_queue_has_data_def word_le_nat_alt split: if_splits)
  show "cursor_inv q'"
    using call inv small data
    by (auto simp add: bit_queue_read_bits_def split: option.splits if_splits sum.splits
        dest: read_loop_inv)
qed

lemma constructors_inv:
  "bit_queue_base_init calloc_bq calloc_buffer byte_count = (Some q, e) \<Longrightarrow> cursor_inv q"
  "bit_queue_init calloc_bq buffer_arg byte_count free_buff_arg = (Some q, e) \<Longrightarrow> cursor_inv q"
  by (auto simp add: bit_queue_base_init_def bit_queue_init_def calloc_bit_queue_def cursor_inv_def
      word_gt_0 split: if_splits)

lemma zero_buffer:
  fixes xs :: "uint8_t list"
  assumes len: "length xs = m" and zero: "\<forall>p < 8 * m. \<not> get_bit xs p"
  shows "xs = replicate m 0"
proof (rule nth_equalityI)
  show "length xs = length (replicate m (0 :: uint8_t))" using len by simp
next
  fix i
  assume i: "i < length xs"
  have "xs ! i = 0"
  proof (rule bit_eqI)
    fix j
    assume "possible_bit TYPE(uint8_t) j"
    then have j: "j < 8" by (simp add: possible_bit_word)
    then have "(8 * i + j) div 8 = i" "(8 * i + j) mod 8 = j" by simp_all
    then have "bit (xs ! i) j = get_bit xs (8 * i + j)"
      by (simp add: get_bit_def)
    moreover have "8 * i + j < 8 * m" using i j len by simp
    ultimately show "bit (xs ! i) j = bit (0 :: uint8_t) j"
      using zero by simp
  qed
  then show "xs ! i = replicate m 0 ! i" using i len by simp
qed

lemma copy_zeros:
  fixes sz bit_count :: size_t
  assumes small: "unat sz < 2 ^ 61" and bc: "bit_count \<noteq> 0"
    and fit: "unat bit_count \<le> 8 * unat sz"
  shows "bit_queue_bit_buffer_copy (Some (replicate (unat sz) 0)) (Some (replicate (unat sz) 0))
           0 0 sz 0 0 sz bit_count =
         Some (Inr (Some (replicate (unat sz) 0), ucast bit_count, None))"
proof -
  let ?zs = "replicate (unat sz) (0 :: uint8_t)"
  have pos: "0 < unat bit_count" using bc by (simp add: unat_gt_0)
  have cap: "unat (sz * 8) = 8 * unat sz" using small by (rule unat_times8)
  have inv: "\<not> copy_args_invalid 0 0 sz 0 0 sz bit_count"
    using bc fit cap by (simp add: copy_args_invalid_def word_less_nat_alt)
  have l: "length ?zs = unat sz" "length ?zs < 2 ^ 61" using small by simp_all
  have s: "unat (0 :: size_t) < unat sz" using pos fit by auto
  have f: "8 * unat (0 :: size_t) + unat (0 :: uint8_t) + unat bit_count \<le> 8 * unat sz"
    using fit by simp
  from copy_success [OF inv l(1) l(1) l(2) l(2) s f]
  obtain dst' where
    call: "bit_queue_bit_buffer_copy (Some ?zs) (Some ?zs) 0 0 sz 0 0 sz bit_count =
       Some (Inr (Some dst', ucast (clip_bit_count sz 0 0 bit_count), None))"
    and uc: "unat (clip_bit_count sz 0 0 bit_count) = min (unat bit_count) (8 * unat sz)"
    and len: "length dst' = unat sz"
    and bits: "\<forall>p. get_bit dst' p =
        (get_bit ?zs p \<or> (p < unat (clip_bit_count sz 0 0 bit_count) \<and> get_bit ?zs p))"
    by auto
  have "clip_bit_count sz 0 0 bit_count = bit_count"
    using uc fit by (simp add: word_unat_eq_iff)
  moreover have "dst' = ?zs"
    using len bits by (intro zero_buffer) (simp_all add: get_bit_replicate_zero)
  ultimately show ?thesis using call by simp
qed

lemma write_of_2_pow_31_bits:
  fixes zs :: "uint8_t list"
  defines "zs \<equiv> replicate (unat (268435456 :: size_t)) 0"
  defines "q0 \<equiv> \<lparr>buffer = Some zs, r_bit_offset = 0, r_byte_offset = 0, w_bit_offset = 0,
      w_byte_offset = 0, written_bits = 0, buffer_size = 268435456, free_buff = True\<rparr>"
  shows "bit_queue_write_bits (Some q0) (Some zs) 268435456 2147483648 =
    Some (Inr (Some (q0\<lparr>written_bits := 18446744071562067968\<rparr>), - 1, Some EINVAL))"
proof -
  have c1: "bit_queue_bit_buffer_copy (Some zs) (Some zs) 0 0 268435456 0 0 268435456 2147483648 =
      Some (Inr (Some zs, ucast (2147483648 :: size_t), None))"
    unfolding zs_def by (rule copy_zeros) simp_all
  have c2: "bit_queue_bit_buffer_copy (Some zs) (Some zs) 0 0 268435456 0 0 268435456 4294967296 =
      Some (Inr (Some zs, - 1, Some EINVAL))"
    by (simp add: bit_queue_bit_buffer_copy_def copy_args_invalid_def)
  have r: "(ucast (2147483648 :: size_t) :: int_t) = 2147483648" by simp
  have r1: "(2147483648 :: int_t) \<noteq> - 1" by simp
  have a: "add_bit_offset 0 2147483648 = 0" by (simp add: add_bit_offset_def)
  have sc: "(scast (2147483648 :: int_t) :: size_t) = 18446744071562067968" by simp
  have "(18446744071562067968 :: size_t) + 2147483648 = 0"
    by simp
  then have "(18446744071562067968 :: size_t) = - 2147483648"
    by (simp only: eq_neg_iff_add_eq_0)
  then have neg: "(- 2147483648 :: size_t) = 18446744071562067968"
    by (rule sym)
  let ?q1 = "q0\<lparr>written_bits := 18446744071562067968\<rparr>"
  have l2: "bit_queue_write_bits_loop ?q1 zs 268435456 0 0 4294967296 =
      Some (Inr (?q1, - 1, Some EINVAL))"
    by (subst bit_queue_write_bits_loop.simps) (simp add: q0_def c2)
  have l1: "bit_queue_write_bits_loop q0 zs 268435456 0 0 2147483648 =
      Some (Inr (?q1, - 1, Some EINVAL))"
    apply (subst bit_queue_write_bits_loop.simps)
    apply (simp add: q0_def c1 r1 a sc Let_def)
    using l2 apply (simp add: q0_def neg)
    done
  show ?thesis
    by (simp add: bit_queue_write_bits_def bit_queue_has_space_def l1) (simp add: q0_def)
qed

section \<open>Claims about the transfer primitive\<close>

text \<open>
  C5, the frame of \<^verbatim>\<open>bit_queue_bit_buffer_copy\<close>. Take a call on two buffers
  whose sizes are the ones passed, that returns without setting \<^verbatim>\<open>errno\<close>.
  With \<open>n\<close> the number of bits copied, \<open>dp\<close> the first destination bit and
  \<open>sp\<close> the first source bit, the destination keeps its length; each of its bits
  is its old value, OR-ed with the source bit that maps to it when it lies in the
  copied range \<open>dp \<le> p < dp + n\<close>; a byte no bit of which lies in that range is
  the byte it was; and the buffer read as a little-endian number is the old number
  OR the \<open>n\<close> source bits from \<open>sp\<close> on, shifted to \<open>dp\<close>. No bit is ever
  cleared, which is why the caller has to clear what is to be overwritten.
\<close>

theorem copy_frame:
  fixes dst src :: "uint8_t list"
  assumes ld: "length dst = unat dst_size" and ls: "length src = unat src_size"
    and dlen: "length dst < 2 ^ 61" and slen: "length src < 2 ^ 61"
    and call: "bit_queue_bit_buffer_copy (Some dst) (Some src) dbyte dbit dst_size sbyte sbit src_size bit_count =
      Some (Inr (dst_opt, ret_val, None))"
  defines "dp \<equiv> 8 * unat dbyte + unat dbit" and "sp \<equiv> 8 * unat sbyte + unat sbit"
  defines "n \<equiv> unat (clip_bit_count src_size sbyte sbit bit_count)"
  shows "\<exists>dst'. dst_opt = Some dst' \<and> length dst' = length dst \<and>
     ret_val = ucast (clip_bit_count src_size sbyte sbit bit_count) \<and>
     dp + n \<le> 8 * length dst \<and> sp + n \<le> 8 * length src \<and>
     (\<forall>p. get_bit dst' p = (get_bit dst p \<or> (dp \<le> p \<and> p < dp + n \<and> get_bit src (sp + (p - dp))))) \<and>
     (\<forall>i. dp + n \<le> 8 * i \<or> 8 * i + 8 \<le> dp \<longrightarrow> dst' ! i = dst ! i) \<and>
     le_val dst' = le_val dst OR push_bit dp (take_bit n (drop_bit sp (le_val src)))"
  unfolding dp_def sp_def n_def using ld ls dlen slen call by (rule copy_returned_bits)

text \<open>A call from bit 6 of a source to bit 3 of a destination that holds 0x81.\<close>

theorem copy_frame_witness:
  "bit_queue_bit_buffer_copy (Some [0x81, 0]) (Some [0xFF, 1]) 0 3 2 0 6 2 5 =
     Some (Inr (Some [0xB9, 0], 5, None)) \<and>
   le_val [0xB9, 0] = le_val [0x81, 0] OR push_bit 3 (take_bit 5 (drop_bit 6 (le_val [0xFF, 1]))) \<and>
   get_bit [0xB9, 0] 7 = get_bit [0x81, 0] 7 \<and> [0xB9, 0 :: uint8_t] ! 1 = [0x81, 0] ! 1"
proof -
  have call: "bit_queue_bit_buffer_copy (Some [0x81, 0]) (Some [0xFF, 1]) 0 3 2 0 6 2 5 =
     Some (Inr (Some [0xB9, 0], 5, None))"
    by code_simp
  have n: "unat (clip_bit_count 2 0 6 5) = 5"
    by (simp add: clip_bit_count_def src_remaining_def)
  have "length [0x81, 0 :: uint8_t] = unat (2 :: size_t)" "length [0xFF, 1 :: uint8_t] = unat (2 :: size_t)"
    "length [0x81, 0 :: uint8_t] < 2 ^ 61" "length [0xFF, 1 :: uint8_t] < 2 ^ 61"
    by simp_all
  from copy_frame [OF this call]
  have "(\<forall>p. get_bit [0xB9, 0] p = (get_bit [0x81, 0] p \<or> (3 \<le> p \<and> p < 8 \<and> get_bit [0xFF, 1] (6 + (p - 3))))) \<and>
     (\<forall>i. 8 \<le> 8 * i \<or> 8 * i + 8 \<le> 3 \<longrightarrow> [0xB9, 0 :: uint8_t] ! i = [0x81, 0] ! i) \<and>
     le_val [0xB9, 0] = le_val [0x81, 0] OR push_bit 3 (take_bit 5 (drop_bit 6 (le_val [0xFF, 1])))"
    by (simp add: n)
  then show ?thesis using call by (simp add: get_bit_def)
qed

text \<open>
  C10. Take a call on two buffers with a nonzero bit count that does not exceed
  \<open>src_buff_size * 8\<close> and with both bit offsets below 8. The validity check
  rejects it, and \<^verbatim>\<open>bit_queue_bit_buffer_copy\<close> returns -1 with \<^verbatim>\<open>EINVAL\<close>, exactly
  when the destination or the source byte offset is strictly greater than the
  buffer size: a byte offset equal to the size is accepted. At such a start with
  a nonzero bit offset the remaining capacity \<open>(size - size) * 8 - bit_offset\<close>
  wraps around to \<open>2 ^ 64 - bit_offset\<close>. On the destination side the space check
  then passes: the function does not return \<^verbatim>\<open>EMSGSIZE\<close> but enters its loop, and
  on a destination of \<open>dst_buff_size\<close> bytes the first store of the loop is past
  the end of the buffer. On the source side the bit count is not clipped: once
  the destination has passed its space check the function enters the loop with
  the whole \<open>bit_count\<close>, which is also the count a completed loop returns, and on
  a source of \<open>src_buff_size\<close> bytes the first load of the loop is past the end
  of the buffer.
\<close>

theorem copy_start_at_end_wraps:
  fixes dst src :: "uint8_t list"
  assumes bc: "bit_count \<noteq> 0" and d: "dst_bit_offset < 8" and s: "src_bit_offset < 8"
    and le: "bit_count \<le> src_buff_size * 8"
  shows "copy_args_invalid dst_byte_offset dst_bit_offset dst_buff_size
             src_byte_offset src_bit_offset src_buff_size bit_count =
           (dst_buff_size < dst_byte_offset \<or> src_buff_size < src_byte_offset) \<and>
         (bit_queue_bit_buffer_copy (Some dst) (Some src) dst_byte_offset dst_bit_offset
              dst_buff_size src_byte_offset src_bit_offset src_buff_size bit_count =
            Some (Inr (Some dst, - 1, Some EINVAL))) =
           (dst_buff_size < dst_byte_offset \<or> src_buff_size < src_byte_offset) \<and>
         (dst_bit_offset \<noteq> 0 \<longrightarrow>
            unat (dst_remaining dst_buff_size dst_buff_size dst_bit_offset) =
              2 ^ 64 - unat dst_bit_offset \<and>
            \<not> dst_remaining dst_buff_size dst_buff_size dst_bit_offset < bit_count \<and>
            (src_byte_offset \<le> src_buff_size \<longrightarrow>
               bit_queue_bit_buffer_copy (Some dst) (Some src) dst_buff_size dst_bit_offset
                   dst_buff_size src_byte_offset src_bit_offset src_buff_size bit_count \<noteq>
                 Some (Inr (Some dst, - 1, Some EMSGSIZE)) \<and>
               bit_queue_bit_buffer_copy (Some dst) (Some src) dst_buff_size dst_bit_offset
                   dst_buff_size src_byte_offset src_bit_offset src_buff_size bit_count =
                 (case bit_queue_bit_buffer_copy_loop dst src dst_buff_size dst_bit_offset
                         src_byte_offset src_bit_offset
                         (clip_bit_count src_buff_size src_byte_offset src_bit_offset bit_count) of
                    None \<Rightarrow> None
                  | Some (Inl f) \<Rightarrow> Some (Inl f)
                  | Some (Inr dst') \<Rightarrow>
                      Some (Inr (Some dst',
                        ucast (clip_bit_count src_buff_size src_byte_offset src_bit_offset bit_count),
                        None))) \<and>
               (length dst = unat dst_buff_size \<longrightarrow>
                  bit_queue_bit_buffer_copy (Some dst) (Some src) dst_buff_size dst_bit_offset
                      dst_buff_size src_byte_offset src_bit_offset src_buff_size bit_count =
                    Some (Inl OutOfBounds)))) \<and>
         (src_bit_offset \<noteq> 0 \<longrightarrow>
            unat (src_remaining src_buff_size src_buff_size src_bit_offset) =
              2 ^ 64 - unat src_bit_offset \<and>
            clip_bit_count src_buff_size src_buff_size src_bit_offset bit_count = bit_count \<and>
            (dst_byte_offset \<le> dst_buff_size \<and>
             \<not> dst_remaining dst_buff_size dst_byte_offset dst_bit_offset < bit_count \<longrightarrow>
               bit_queue_bit_buffer_copy (Some dst) (Some src) dst_byte_offset dst_bit_offset
                   dst_buff_size src_buff_size src_bit_offset src_buff_size bit_count =
                 (case bit_queue_bit_buffer_copy_loop dst src dst_byte_offset dst_bit_offset
                         src_buff_size src_bit_offset bit_count of
                    None \<Rightarrow> None
                  | Some (Inl f) \<Rightarrow> Some (Inl f)
                  | Some (Inr dst') \<Rightarrow> Some (Inr (Some dst', ucast bit_count, None))) \<and>
               (length src = unat src_buff_size \<longrightarrow>
                  bit_queue_bit_buffer_copy (Some dst) (Some src) dst_byte_offset dst_bit_offset
                      dst_buff_size src_buff_size src_bit_offset src_buff_size bit_count =
                    Some (Inl OutOfBounds))))"
proof -
  have inv: "copy_args_invalid dbyte dst_bit_offset dst_buff_size
             sbyte src_bit_offset src_buff_size bit_count =
           (dst_buff_size < dbyte \<or> src_buff_size < sbyte)" for dbyte sbyte
    using bc d s le by (auto simp add: copy_args_invalid_def)
  have bcle: "unat bit_count \<le> 2 ^ 64 - 8"
    using le unat_times8_le [of src_buff_size] by (simp add: word_le_nat_alt)
  have d8: "unat dst_bit_offset < 8" using d by (simp add: word_less_nat_alt)
  have s8: "unat src_bit_offset < 8" using s by (simp add: word_less_nat_alt)
  have c1: "copy_args_invalid dst_byte_offset dst_bit_offset dst_buff_size
             src_byte_offset src_bit_offset src_buff_size bit_count =
           (dst_buff_size < dst_byte_offset \<or> src_buff_size < src_byte_offset)"
    by (rule inv)
  have c2: "(bit_queue_bit_buffer_copy (Some dst) (Some src) dst_byte_offset dst_bit_offset
              dst_buff_size src_byte_offset src_bit_offset src_buff_size bit_count =
            Some (Inr (Some dst, - 1, Some EINVAL))) =
           (dst_buff_size < dst_byte_offset \<or> src_buff_size < src_byte_offset)"
    unfolding copy_EINVAL_iff by (rule inv)
  have c3: "unat (dst_remaining dst_buff_size dst_buff_size dst_bit_offset) =
              2 ^ 64 - unat dst_bit_offset \<and>
            \<not> dst_remaining dst_buff_size dst_buff_size dst_bit_offset < bit_count \<and>
            (src_byte_offset \<le> src_buff_size \<longrightarrow>
               bit_queue_bit_buffer_copy (Some dst) (Some src) dst_buff_size dst_bit_offset
                   dst_buff_size src_byte_offset src_bit_offset src_buff_size bit_count \<noteq>
                 Some (Inr (Some dst, - 1, Some EMSGSIZE)) \<and>
               bit_queue_bit_buffer_copy (Some dst) (Some src) dst_buff_size dst_bit_offset
                   dst_buff_size src_byte_offset src_bit_offset src_buff_size bit_count =
                 (case bit_queue_bit_buffer_copy_loop dst src dst_buff_size dst_bit_offset
                         src_byte_offset src_bit_offset
                         (clip_bit_count src_buff_size src_byte_offset src_bit_offset bit_count) of
                    None \<Rightarrow> None
                  | Some (Inl f) \<Rightarrow> Some (Inl f)
                  | Some (Inr dst') \<Rightarrow>
                      Some (Inr (Some dst',
                        ucast (clip_bit_count src_buff_size src_byte_offset src_bit_offset bit_count),
                        None))) \<and>
               (length dst = unat dst_buff_size \<longrightarrow>
                  bit_queue_bit_buffer_copy (Some dst) (Some src) dst_buff_size dst_bit_offset
                      dst_buff_size src_byte_offset src_bit_offset src_buff_size bit_count =
                    Some (Inl OutOfBounds)))"
    if nz: "dst_bit_offset \<noteq> 0"
  proof (intro conjI impI)
    have u: "unat (- (ucast dst_bit_offset :: size_t)) = 2 ^ 64 - unat dst_bit_offset"
      using unat_neg_small [of "ucast dst_bit_offset"] nz
      by (simp add: ucast_bit_offset_zero unat_ucast_8_64)
    show "unat (dst_remaining dst_buff_size dst_buff_size dst_bit_offset) = 2 ^ 64 - unat dst_bit_offset"
      using u by (simp add: dst_remaining_def)
    show space: "\<not> dst_remaining dst_buff_size dst_buff_size dst_bit_offset < bit_count"
      using u bcle d8 by (simp add: dst_remaining_def word_less_nat_alt)
    assume sb: "src_byte_offset \<le> src_buff_size"
    then have valid: "\<not> copy_args_invalid dst_buff_size dst_bit_offset dst_buff_size
             src_byte_offset src_bit_offset src_buff_size bit_count"
      by (simp add: inv not_less)
    note run = copy_runs_loop [OF valid space, of dst src]
    show "bit_queue_bit_buffer_copy (Some dst) (Some src) dst_buff_size dst_bit_offset
                   dst_buff_size src_byte_offset src_bit_offset src_buff_size bit_count =
                 (case bit_queue_bit_buffer_copy_loop dst src dst_buff_size dst_bit_offset
                         src_byte_offset src_bit_offset
                         (clip_bit_count src_buff_size src_byte_offset src_bit_offset bit_count) of
                    None \<Rightarrow> None
                  | Some (Inl f) \<Rightarrow> Some (Inl f)
                  | Some (Inr dst') \<Rightarrow>
                      Some (Inr (Some dst',
                        ucast (clip_bit_count src_buff_size src_byte_offset src_bit_offset bit_count),
                        None)))"
      by (rule run)
    show "bit_queue_bit_buffer_copy (Some dst) (Some src) dst_buff_size dst_bit_offset
                   dst_buff_size src_byte_offset src_bit_offset src_buff_size bit_count \<noteq>
                 Some (Inr (Some dst, - 1, Some EMSGSIZE))"
      unfolding run by (rule copy_loop_result_not_error)
    assume "length dst = unat dst_buff_size"
    then show "bit_queue_bit_buffer_copy (Some dst) (Some src) dst_buff_size dst_bit_offset
                      dst_buff_size src_byte_offset src_bit_offset src_buff_size bit_count =
                    Some (Inl OutOfBounds)"
      using bc d s le sb nz by (intro copy_at_end_out_of_bounds)
  qed
  have c4: "unat (src_remaining src_buff_size src_buff_size src_bit_offset) =
              2 ^ 64 - unat src_bit_offset \<and>
            clip_bit_count src_buff_size src_buff_size src_bit_offset bit_count = bit_count \<and>
            (dst_byte_offset \<le> dst_buff_size \<and>
             \<not> dst_remaining dst_buff_size dst_byte_offset dst_bit_offset < bit_count \<longrightarrow>
               bit_queue_bit_buffer_copy (Some dst) (Some src) dst_byte_offset dst_bit_offset
                   dst_buff_size src_buff_size src_bit_offset src_buff_size bit_count =
                 (case bit_queue_bit_buffer_copy_loop dst src dst_byte_offset dst_bit_offset
                         src_buff_size src_bit_offset bit_count of
                    None \<Rightarrow> None
                  | Some (Inl f) \<Rightarrow> Some (Inl f)
                  | Some (Inr dst') \<Rightarrow> Some (Inr (Some dst', ucast bit_count, None))) \<and>
               (length src = unat src_buff_size \<longrightarrow>
                  bit_queue_bit_buffer_copy (Some dst) (Some src) dst_byte_offset dst_bit_offset
                      dst_buff_size src_buff_size src_bit_offset src_buff_size bit_count =
                    Some (Inl OutOfBounds)))"
    if nz: "src_bit_offset \<noteq> 0"
  proof (intro conjI impI)
    have u: "unat (- src_bit_offset) = 2 ^ 64 - unat src_bit_offset"
      using unat_neg_small [of src_bit_offset] nz by simp
    show "unat (src_remaining src_buff_size src_buff_size src_bit_offset) = 2 ^ 64 - unat src_bit_offset"
      using u by (simp add: src_remaining_def)
    have "\<not> src_remaining src_buff_size src_buff_size src_bit_offset < bit_count"
      using u bcle s8 by (simp add: src_remaining_def word_less_nat_alt)
    then show clip: "clip_bit_count src_buff_size src_buff_size src_bit_offset bit_count = bit_count"
      by (simp add: clip_bit_count_def)
    assume a: "dst_byte_offset \<le> dst_buff_size \<and>
             \<not> dst_remaining dst_buff_size dst_byte_offset dst_bit_offset < bit_count"
    then have valid: "\<not> copy_args_invalid dst_byte_offset dst_bit_offset dst_buff_size
             src_buff_size src_bit_offset src_buff_size bit_count"
      by (simp add: inv not_less)
    note run = copy_runs_loop [OF valid conjunct2 [OF a], of dst src, unfolded clip]
    show "bit_queue_bit_buffer_copy (Some dst) (Some src) dst_byte_offset dst_bit_offset
                   dst_buff_size src_buff_size src_bit_offset src_buff_size bit_count =
                 (case bit_queue_bit_buffer_copy_loop dst src dst_byte_offset dst_bit_offset
                         src_buff_size src_bit_offset bit_count of
                    None \<Rightarrow> None
                  | Some (Inl f) \<Rightarrow> Some (Inl f)
                  | Some (Inr dst') \<Rightarrow> Some (Inr (Some dst', ucast bit_count, None)))"
      by (rule run)
    assume "length src = unat src_buff_size"
    then show "bit_queue_bit_buffer_copy (Some dst) (Some src) dst_byte_offset dst_bit_offset
                      dst_buff_size src_buff_size src_bit_offset src_buff_size bit_count =
                    Some (Inl OutOfBounds)"
      unfolding run by (simp add: copy_loop_out_of_bounds)
  qed
  from c1 c2 c3 c4 show ?thesis by blast
qed

text \<open>
  Both starts at byte 1, bit 1 of one-byte buffers, and a count of 8 bits.
\<close>

theorem copy_start_at_end_wraps_witness:
  "\<not> copy_args_invalid 1 1 1 1 1 1 8 \<and>
   bit_queue_bit_buffer_copy (Some [0]) (Some [0xFF]) 1 1 1 1 1 1 8 \<noteq>
     Some (Inr (Some [0], - 1, Some EINVAL)) \<and>
   bit_queue_bit_buffer_copy (Some [0]) (Some [0xFF]) 1 1 1 1 1 1 8 \<noteq>
     Some (Inr (Some [0], - 1, Some EMSGSIZE)) \<and>
   bit_queue_bit_buffer_copy (Some [0]) (Some [0xFF]) 1 1 1 1 1 1 8 = Some (Inl OutOfBounds) \<and>
   unat (dst_remaining 1 1 1) = 2 ^ 64 - 1 \<and> \<not> dst_remaining 1 1 1 < 8 \<and>
   unat (src_remaining 1 1 1) = 2 ^ 64 - 1 \<and> clip_bit_count 1 1 1 8 = 8"
proof -
  have "(8 :: size_t) \<noteq> 0" "(1 :: uint8_t) < 8" "(1 :: size_t) < 8" "(8 :: size_t) \<le> 1 * 8"
    by simp_all
  note t = copy_start_at_end_wraps [OF this, where dst = "[0]" and src = "[0xFF]"
      and dst_byte_offset = 1 and src_byte_offset = 1 and dst_buff_size = 1]
  have nz: "(1 :: uint8_t) \<noteq> 0" "(1 :: size_t) \<noteq> 0" "(1 :: size_t) \<le> 1"
    "length [0 :: uint8_t] = unat (1 :: size_t)"
    by simp_all
  note a = t [THEN conjunct1]
  note b = t [THEN conjunct2, THEN conjunct1]
  note c = t [THEN conjunct2, THEN conjunct2, THEN conjunct1, rule_format, OF nz(1)]
  note e = t [THEN conjunct2, THEN conjunct2, THEN conjunct2, rule_format, OF nz(2)]
  note c3 = c [THEN conjunct2, THEN conjunct2, rule_format, OF nz(3)]
  have "\<not> copy_args_invalid 1 1 1 1 1 1 8" using a by simp
  moreover have "bit_queue_bit_buffer_copy (Some [0]) (Some [0xFF]) 1 1 1 1 1 1 8 \<noteq>
     Some (Inr (Some [0], - 1, Some EINVAL))" using b by simp
  moreover have "bit_queue_bit_buffer_copy (Some [0]) (Some [0xFF]) 1 1 1 1 1 1 8 \<noteq>
     Some (Inr (Some [0], - 1, Some EMSGSIZE))" by (rule c3 [THEN conjunct1])
  moreover have "bit_queue_bit_buffer_copy (Some [0]) (Some [0xFF]) 1 1 1 1 1 1 8 = Some (Inl OutOfBounds)"
    by (rule c3 [THEN conjunct2, THEN conjunct2, rule_format, OF nz(4)])
  moreover have "unat (dst_remaining 1 1 1) = 2 ^ 64 - 1" using c [THEN conjunct1] by simp
  moreover have "\<not> dst_remaining 1 1 1 < 8" by (rule c [THEN conjunct2, THEN conjunct1])
  moreover have "unat (src_remaining 1 1 1) = 2 ^ 64 - 1" using e [THEN conjunct1] by simp
  moreover have "clip_bit_count 1 1 1 8 = 8" by (rule e [THEN conjunct2, THEN conjunct1])
  ultimately show ?thesis by blast
qed


text \<open>
  Calls that start inside their buffers behave as C6 says. Take a call that
  passes the validity check, on buffers whose sizes are the ones passed, with the
  source byte offset strictly below the source size and the destination byte
  offset strictly below the destination size (or at it with bit offset 0). If the
  destination holds fewer than \<open>bit_count\<close> bits from its start position on, the
  call returns -1, sets \<^verbatim>\<open>EMSGSIZE\<close> and leaves the destination as it was.
  Otherwise it returns without an error the count \<open>c\<close>, the smaller of
  \<open>bit_count\<close> and the bits the source holds from its start position on, which
  is at least 1; the \<^verbatim>\<open>int\<close> returned is \<open>c\<close> converted, and reads as \<open>c\<close> when
  \<open>c\<close> is below \<open>2 ^ 31\<close>. So the count falls short of the request only by the
  clipping at the source.
\<close>

theorem copy_space_and_clipping:
  fixes dst src :: "uint8_t list"
  assumes inv: "\<not> copy_args_invalid dbyte dbit dst_size sbyte sbit src_size bit_count"
    and ld: "length dst = unat dst_size" and ls: "length src = unat src_size"
    and dlen: "length dst < 2 ^ 61" and slen: "length src < 2 ^ 61"
    and sstrict: "sbyte < src_size"
    and dstrict: "dbyte < dst_size \<or> dbit = 0"
  defines "dp \<equiv> 8 * unat dbyte + unat dbit" and "sp \<equiv> 8 * unat sbyte + unat sbit"
  defines "c \<equiv> clip_bit_count src_size sbyte sbit bit_count"
  shows "(8 * length dst - dp < unat bit_count \<longrightarrow>
            bit_queue_bit_buffer_copy (Some dst) (Some src) dbyte dbit dst_size sbyte sbit src_size bit_count =
              Some (Inr (Some dst, - 1, Some EMSGSIZE))) \<and>
         (unat bit_count \<le> 8 * length dst - dp \<longrightarrow>
            (\<exists>dst'. bit_queue_bit_buffer_copy (Some dst) (Some src) dbyte dbit dst_size sbyte sbit src_size bit_count =
              Some (Inr (Some dst', ucast c, None)) \<and> length dst' = length dst) \<and>
            unat c = min (unat bit_count) (8 * length src - sp) \<and> 0 < unat c \<and>
            (unat c < 2 ^ 31 \<longrightarrow> sint (ucast c :: int_t) = int (unat c)))"
proof (intro conjI impI)
  have ds: "unat dbyte < unat dst_size \<or> unat dbit = 0"
    using dstrict by (auto simp add: word_less_nat_alt)
  have ss: "unat sbyte < unat src_size"
    using sstrict by (simp add: word_less_nat_alt)
  have v: "unat dbyte \<le> unat dst_size" "unat dbit < 8"
    using inv by (simp_all add: copy_args_invalid_def word_less_nat_alt word_le_nat_alt not_less not_le)
  have dple: "dp \<le> 8 * unat dst_size"
    using ds v by (auto simp add: dp_def)
  {
    assume "8 * length dst - dp < unat bit_count"
    then show "bit_queue_bit_buffer_copy (Some dst) (Some src) dbyte dbit dst_size sbyte sbit src_size bit_count =
              Some (Inr (Some dst, - 1, Some EMSGSIZE))"
      using inv dlen ds unfolding ld dp_def by (intro copy_too_small) simp_all
  }
  {
    assume "unat bit_count \<le> 8 * length dst - dp"
    then have fit: "8 * unat dbyte + unat dbit + unat bit_count \<le> 8 * unat dst_size"
      using dple by (simp add: ld dp_def)
    note cs = copy_success [OF inv ld ls dlen slen ss fit, folded c_def]
    show "\<exists>dst'. bit_queue_bit_buffer_copy (Some dst) (Some src) dbyte dbit dst_size sbyte sbit src_size bit_count =
              Some (Inr (Some dst', ucast c, None)) \<and> length dst' = length dst"
      using cs by blast
    show "unat c = min (unat bit_count) (8 * length src - sp)"
      using cs by (auto simp add: ls sp_def)
    show "0 < unat c"
      using cs by auto
  }
  {
    assume "unat c < 2 ^ 31"
    then show "sint (ucast c :: int_t) = int (unat c)"
      by (rule sint_ucast_count)
  }
qed

text \<open>A destination with 4 bits left for 5, and a source with 5 bits left for 8.\<close>

theorem copy_space_and_clipping_witness:
  "bit_queue_bit_buffer_copy (Some [0]) (Some [0xFF, 0xFF]) 0 4 1 0 0 2 5 =
     Some (Inr (Some [0], - 1, Some EMSGSIZE)) \<and>
   (\<exists>dst'. bit_queue_bit_buffer_copy (Some [0, 0]) (Some [0xFF]) 0 0 2 0 3 1 8 =
     Some (Inr (Some dst', 5, None)) \<and> length dst' = 2)"
proof -
  have c: "clip_bit_count 1 0 3 8 = 5"
    by (simp add: clip_bit_count_def src_remaining_def)
  have a: "\<not> copy_args_invalid 0 4 1 0 0 2 5" "length [0 :: uint8_t] = unat (1 :: size_t)"
    "length [0xFF, 0xFF :: uint8_t] = unat (2 :: size_t)" "length [0 :: uint8_t] < 2 ^ 61"
    "length [0xFF, 0xFF :: uint8_t] < 2 ^ 61" "(0 :: size_t) < 2" "(0 :: size_t) < 1 \<or> (4 :: uint8_t) = 0"
    by (simp_all add: copy_args_invalid_def)
  have b: "\<not> copy_args_invalid 0 0 2 0 3 1 8" "length [0, 0 :: uint8_t] = unat (2 :: size_t)"
    "length [0xFF :: uint8_t] = unat (1 :: size_t)" "length [0, 0 :: uint8_t] < 2 ^ 61"
    "length [0xFF :: uint8_t] < 2 ^ 61" "(0 :: size_t) < 1" "(0 :: size_t) < 2 \<or> (0 :: uint8_t) = 0"
    by (simp_all add: copy_args_invalid_def)
  from copy_space_and_clipping [OF a] copy_space_and_clipping [OF b]
  show ?thesis by (auto simp add: c)
qed

text \<open>
  C4, in two parts.

  One iteration of the loop, in any state with both bit offsets below 8, at least
  one bit to go and room for the remaining bits in both buffers: the iteration
  moves \<open>run = min (remaining bits) (8 - dst_bit_offset) (8 - src_bit_offset)\<close>
  bits. The byte it stores has source bit \<open>src_bit_offset + k\<close> OR-ed onto
  destination bit \<open>dst_bit_offset + k\<close> for every \<open>k < run\<close>, and no other bit
  changed. The loop ends when \<open>run\<close> was all that remained; otherwise it goes on
  with both bit offsets advanced by \<open>run\<close>, an offset that reached 8 set back to 0
  with its byte offset advanced by one, and \<open>run\<close> bits fewer to go.

  The whole call, when it passes the validity check, starts inside the source and
  has room in the destination: it returns the clipped count \<open>c\<close>, and bit
  \<open>dp + k\<close> of the destination is its old value OR bit \<open>sp + k\<close> of the source,
  for \<open>k < c\<close>, the least significant bit of each byte first. Let \<open>srcA\<close> hold
  the same \<open>c\<close> bits from its bit 0 on. Then the byte-aligned copy of these bits
  from \<open>srcA\<close> into a cleared buffer succeeds as well, and the misaligned result
  is the old destination OR the aligned result shifted left by \<open>dp\<close>. This holds
  for every pair of bit offsets below 8 and every count that fits, the counts 1 to
  16 on three-byte buffers among them.
\<close>

theorem bit_buffer_copy_lsb_first:
  fixes dst src srcA it_dst :: "uint8_t list"
  assumes r: "0 < unat r_bits" and itd: "unat it_dbit < 8" and its: "unat it_sbit < 8"
    and itdfit: "8 * unat it_dbyte + unat it_dbit + unat r_bits \<le> 8 * length it_dst"
    and itsfit: "8 * unat it_sbyte + unat it_sbit + unat r_bits \<le> 8 * length src"
    and itdlen: "length it_dst < 2 ^ 61"
    and inv: "\<not> copy_args_invalid dbyte dbit dst_size sbyte sbit src_size bit_count"
    and ld: "length dst = unat dst_size" and ls: "length src = unat src_size"
    and dlen: "length dst < 2 ^ 61" and slen: "length src < 2 ^ 61"
    and sstrict: "unat sbyte < unat src_size"
    and fit: "8 * unat dbyte + unat dbit + unat bit_count \<le> 8 * unat dst_size"
    and lsA: "length srcA = unat srcA_size" and sAlen: "length srcA < 2 ^ 61"
    and nA: "unat (clip_bit_count src_size sbyte sbit bit_count) \<le> 8 * length srcA"
    and same: "take_bit (unat (clip_bit_count src_size sbyte sbit bit_count)) (le_val srcA) =
                 take_bit (unat (clip_bit_count src_size sbyte sbit bit_count))
                   (drop_bit (8 * unat sbyte + unat sbit) (le_val src))"
  defines "run \<equiv> min (unat r_bits) (min (8 - unat it_dbit) (8 - unat it_sbit))"
  defines "byte1 \<equiv> copy_byte (it_dst ! unat it_dbyte) (src ! unat it_sbyte)
                      (offset_bit_count_of r_bits it_dbit it_sbit) it_sbit it_dbit"
  defines "c \<equiv> clip_bit_count src_size sbyte sbit bit_count"
  shows "unat (8 - offset_bit_count_of r_bits it_dbit it_sbit) = run \<and>
     (\<forall>j. bit byte1 j =
        (bit (it_dst ! unat it_dbyte) j \<or>
         (unat it_dbit \<le> j \<and> j < unat it_dbit + run \<and>
          bit (src ! unat it_sbyte) (unat it_sbit + (j - unat it_dbit))))) \<and>
     bit_queue_bit_buffer_copy_loop it_dst src it_dbyte it_dbit it_sbyte it_sbit r_bits =
       (if run = unat r_bits then Some (Inr (it_dst[unat it_dbyte := byte1]))
        else bit_queue_bit_buffer_copy_loop (it_dst[unat it_dbyte := byte1]) src
               (if unat it_dbit + run = 8 then it_dbyte + 1 else it_dbyte)
               (if unat it_dbit + run = 8 then 0 else it_dbit + of_nat run)
               (if unat it_sbit + run = 8 then it_sbyte + 1 else it_sbyte)
               (if unat it_sbit + run = 8 then 0 else it_sbit + of_nat run)
               (r_bits - of_nat run)) \<and>
     (\<exists>dst' A.
        bit_queue_bit_buffer_copy (Some dst) (Some src) dbyte dbit dst_size sbyte sbit src_size bit_count =
          Some (Inr (Some dst', ucast c, None)) \<and>
        bit_queue_bit_buffer_copy (Some (replicate (length dst) 0)) (Some srcA) 0 0 dst_size 0 0 srcA_size c =
          Some (Inr (Some A, ucast c, None)) \<and>
        length dst' = length dst \<and> length A = length dst \<and>
        (\<forall>p. get_bit dst' p =
           (get_bit dst p \<or>
            (8 * unat dbyte + unat dbit \<le> p \<and> p < 8 * unat dbyte + unat dbit + unat c \<and>
             get_bit src (8 * unat sbyte + unat sbit + (p - (8 * unat dbyte + unat dbit)))))) \<and>
        le_val dst' = le_val dst OR push_bit (8 * unat dbyte + unat dbit) (le_val A))"
proof (intro conjI)
  have noov: "unat r_bits + unat it_dbit < 2 ^ 64"
    using itdfit itdlen by simp
  have uo: "unat (offset_bit_count_of r_bits it_dbit it_sbit) = 8 - run"
    unfolding run_def using itd its noov by (rule offset_bit_count_run)
  have rd: "run \<le> 8 - unat it_dbit" and rs: "run \<le> 8 - unat it_sbit"
    by (simp_all add: run_def)
  show "unat (8 - offset_bit_count_of r_bits it_dbit it_sbit) = run"
    unfolding run_def using r itd its itdfit itsfit itdlen slen by (rule copy_loop_iteration(1))
  show "\<forall>j. bit byte1 j =
        (bit (it_dst ! unat it_dbyte) j \<or>
         (unat it_dbit \<le> j \<and> j < unat it_dbit + run \<and>
          bit (src ! unat it_sbyte) (unat it_sbit + (j - unat it_dbit))))"
    unfolding byte1_def using copy_byte_bit [OF itd its uo rd rs] by blast
  show "bit_queue_bit_buffer_copy_loop it_dst src it_dbyte it_dbit it_sbyte it_sbit r_bits =
       (if run = unat r_bits then Some (Inr (it_dst[unat it_dbyte := byte1]))
        else bit_queue_bit_buffer_copy_loop (it_dst[unat it_dbyte := byte1]) src
               (if unat it_dbit + run = 8 then it_dbyte + 1 else it_dbyte)
               (if unat it_dbit + run = 8 then 0 else it_dbit + of_nat run)
               (if unat it_sbit + run = 8 then it_sbyte + 1 else it_sbyte)
               (if unat it_sbit + run = 8 then 0 else it_sbit + of_nat run)
               (r_bits - of_nat run))"
    unfolding run_def byte1_def using r itd its itdfit itsfit itdlen slen
    by (rule copy_loop_iteration(2))
  show "\<exists>dst' A.
        bit_queue_bit_buffer_copy (Some dst) (Some src) dbyte dbit dst_size sbyte sbit src_size bit_count =
          Some (Inr (Some dst', ucast c, None)) \<and>
        bit_queue_bit_buffer_copy (Some (replicate (length dst) 0)) (Some srcA) 0 0 dst_size 0 0 srcA_size c =
          Some (Inr (Some A, ucast c, None)) \<and>
        length dst' = length dst \<and> length A = length dst \<and>
        (\<forall>p. get_bit dst' p =
           (get_bit dst p \<or>
            (8 * unat dbyte + unat dbit \<le> p \<and> p < 8 * unat dbyte + unat dbit + unat c \<and>
             get_bit src (8 * unat sbyte + unat sbit + (p - (8 * unat dbyte + unat dbit)))))) \<and>
        le_val dst' = le_val dst OR push_bit (8 * unat dbyte + unat dbit) (le_val A)"
    unfolding c_def using inv ld ls dlen slen sstrict fit lsA sAlen nA same
    by (rule copy_aligned_reference)
qed

text \<open>Eleven bits from bit 5 of a source to bit 3 of a cleared destination.\<close>

theorem bit_buffer_copy_lsb_first_witness:
  "unat (8 - offset_bit_count_of 11 3 5) = 3 \<and>
   bit_queue_bit_buffer_copy (Some [0, 0, 0]) (Some [0xB5, 0x3C, 0x0F]) 0 3 3 0 5 3 11 =
     Some (Inr (Some [0x28, 0x0F, 0], 11, None)) \<and>
   bit_queue_bit_buffer_copy (Some [0, 0, 0]) (Some [0xE5, 0x01]) 0 0 3 0 0 2 11 =
     Some (Inr (Some [0xE5, 0x01, 0], 11, None)) \<and>
   le_val [0x28, 0x0F, 0] = push_bit 3 (le_val [0xE5, 0x01, 0])"
proof -
  let ?src = "[0xB5, 0x3C, 0x0F] :: uint8_t list"
  let ?srcA = "[0xE5, 0x01] :: uint8_t list"
  let ?dst = "[0, 0, 0] :: uint8_t list"
  have c: "clip_bit_count 3 0 5 11 = 11"
    by (simp add: clip_bit_count_def src_remaining_def)
  have call: "bit_queue_bit_buffer_copy (Some ?dst) (Some ?src) 0 3 3 0 5 3 11 =
     Some (Inr (Some [0x28, 0x0F, 0], 11, None))"
    by code_simp
  have callA: "bit_queue_bit_buffer_copy (Some ?dst) (Some ?srcA) 0 0 3 0 0 2 11 =
     Some (Inr (Some [0xE5, 0x01, 0], 11, None))"
    by code_simp
  have same: "take_bit (unat (clip_bit_count 3 0 5 11)) (le_val ?srcA) =
      take_bit (unat (clip_bit_count 3 0 5 11))
        (drop_bit (8 * unat (0 :: size_t) + unat (5 :: size_t)) (le_val ?src))"
    unfolding c by (simp add: take_bit_eq_mod drop_bit_eq_div)
  have h1: "0 < unat (11 :: size_t)" "unat (3 :: uint8_t) < 8" "unat (5 :: size_t) < 8"
    "8 * unat (0 :: size_t) + unat (3 :: uint8_t) + unat (11 :: size_t) \<le> 8 * length ?dst"
    "8 * unat (0 :: size_t) + unat (5 :: size_t) + unat (11 :: size_t) \<le> 8 * length ?src"
    "length ?dst < 2 ^ 61"
    by simp_all
  have h2: "\<not> copy_args_invalid 0 3 3 0 5 3 11"
    by (simp add: copy_args_invalid_def)
  have h3: "length ?dst = unat (3 :: size_t)" "length ?src = unat (3 :: size_t)"
    "length ?dst < 2 ^ 61" "length ?src < 2 ^ 61"
    "unat (0 :: size_t) < unat (3 :: size_t)"
    "8 * unat (0 :: size_t) + unat (3 :: uint8_t) + unat (11 :: size_t) \<le> 8 * unat (3 :: size_t)"
    "length ?srcA = unat (2 :: size_t)" "length ?srcA < 2 ^ 61"
    by simp_all
  have h4: "unat (clip_bit_count 3 0 5 11) \<le> 8 * length ?srcA"
    unfolding c by simp
  note t = bit_buffer_copy_lsb_first [OF h1 h2 h3 h4 same]
  have run: "unat (8 - offset_bit_count_of 11 3 5) = 3"
    using t [THEN conjunct1] by simp
  from t [THEN conjunct2, THEN conjunct2, THEN conjunct2]
  obtain dst' A where
    r1: "bit_queue_bit_buffer_copy (Some ?dst) (Some ?src) 0 3 3 0 5 3 11 =
       Some (Inr (Some dst', ucast (clip_bit_count 3 0 5 11), None))"
    and r2: "bit_queue_bit_buffer_copy (Some (replicate (length ?dst) 0)) (Some ?srcA) 0 0 3 0 0 2
       (clip_bit_count 3 0 5 11) = Some (Inr (Some A, ucast (clip_bit_count 3 0 5 11), None))"
    and r3: "le_val dst' = le_val ?dst OR push_bit (8 * unat (0 :: size_t) + unat (3 :: uint8_t)) (le_val A)"
    by blast
  have "dst' = [0x28, 0x0F, 0]"
    using r1 call by simp
  moreover have "replicate (length ?dst) 0 = ?dst"
    by (simp add: numeral_3_eq_3)
  then have "A = [0xE5, 0x01, 0]"
    using r2 callA by (simp add: c)
  ultimately have "le_val [0x28, 0x0F, 0] = push_bit 3 (le_val [0xE5, 0x01, 0])"
    using r3 by simp
  then show ?thesis
    using call callA run by simp
qed

section \<open>Claims about the queue operations\<close>

text \<open>
  C7. Take a queue with a backing buffer, a buffer of the caller and a bit count
  that is not zero and not above \<open>buffer_size_arg * 8\<close>. If the count exceeds
  the capacity \<open>buffer_size * 8\<close> of the queue, \<^verbatim>\<open>bit_queue_write_bits\<close> and
  \<^verbatim>\<open>bit_queue_read_bits\<close> return -1 with \<^verbatim>\<open>EMSGSIZE\<close>. Otherwise the write
  returns -1 with \<^verbatim>\<open>EAGAIN\<close> when \<^verbatim>\<open>bit_queue_has_space\<close> is false, and the read
  when \<^verbatim>\<open>bit_queue_has_data\<close> is false. In each of these failures the queue that
  comes back is the queue that went in, field by field and byte by byte, and so
  is the caller's buffer of a read. \<^verbatim>\<open>bit_queue_has_space\<close> is
  \<open>bit_count \<le> buffer_size * 8 - written_bits\<close> and \<^verbatim>\<open>bit_queue_has_data\<close> is
  \<open>bit_count \<le> written_bits\<close>, in \<^verbatim>\<open>size_t\<close> arithmetic; as long as
  \<open>written_bits\<close> does not exceed the capacity these are the comparisons of the
  numbers of free and of buffered bits.
\<close>

theorem queue_errors_leave_queue_unchanged:
  fixes q :: bit_queue
  assumes buf: "buffer q \<noteq> None" and bc: "bit_count \<noteq> 0"
    and arg: "bit_count \<le> buffer_size_arg * 8"
  shows "(buffer_size q * 8 < bit_count \<longrightarrow>
            bit_queue_write_bits (Some q) (Some src) buffer_size_arg bit_count =
              Some (Inr (Some q, - 1, Some EMSGSIZE)) \<and>
            bit_queue_read_bits (Some q) (Some dst) buffer_size_arg bit_count =
              Some (Inr (Some q, Some dst, - 1, Some EMSGSIZE))) \<and>
         (bit_count \<le> buffer_size q * 8 \<and> \<not> fst (bit_queue_has_space (Some q) bit_count) \<longrightarrow>
            bit_queue_write_bits (Some q) (Some src) buffer_size_arg bit_count =
              Some (Inr (Some q, - 1, Some EAGAIN))) \<and>
         (bit_count \<le> buffer_size q * 8 \<and> \<not> fst (bit_queue_has_data (Some q) bit_count) \<longrightarrow>
            bit_queue_read_bits (Some q) (Some dst) buffer_size_arg bit_count =
              Some (Inr (Some q, Some dst, - 1, Some EAGAIN))) \<and>
         fst (bit_queue_has_space (Some q) bit_count) =
           (bit_count \<le> buffer_size q * 8 - written_bits q) \<and>
         fst (bit_queue_has_data (Some q) bit_count) = (bit_count \<le> written_bits q) \<and>
         (written_bits q \<le> buffer_size q * 8 \<longrightarrow>
            fst (bit_queue_has_space (Some q) bit_count) =
              (unat bit_count \<le> unat (buffer_size q * 8) - unat (written_bits q)) \<and>
            fst (bit_queue_has_data (Some q) bit_count) =
              (unat bit_count \<le> unat (written_bits q)))"
proof -
  have arg': "\<not> buffer_size_arg * 8 < bit_count"
    using arg by (simp add: not_less)
  have too_large: "bit_queue_write_bits (Some q) (Some src) buffer_size_arg bit_count =
        Some (Inr (Some q, - 1, Some EMSGSIZE)) \<and>
      bit_queue_read_bits (Some q) (Some dst) buffer_size_arg bit_count =
        Some (Inr (Some q, Some dst, - 1, Some EMSGSIZE))"
    if "buffer_size q * 8 < bit_count"
    using that buf bc arg' by (simp add: bit_queue_write_bits_def bit_queue_read_bits_def)
  have no_space: "bit_queue_write_bits (Some q) (Some src) buffer_size_arg bit_count =
        Some (Inr (Some q, - 1, Some EAGAIN))"
    if "bit_count \<le> buffer_size q * 8 \<and> \<not> fst (bit_queue_has_space (Some q) bit_count)"
    using that buf bc arg' by (simp add: bit_queue_write_bits_def not_less)
  have no_data: "bit_queue_read_bits (Some q) (Some dst) buffer_size_arg bit_count =
        Some (Inr (Some q, Some dst, - 1, Some EAGAIN))"
    if "bit_count \<le> buffer_size q * 8 \<and> \<not> fst (bit_queue_has_data (Some q) bit_count)"
    using that buf bc arg' by (simp add: bit_queue_read_bits_def not_less)
  have space: "fst (bit_queue_has_space (Some q) bit_count) =
      (bit_count \<le> buffer_size q * 8 - written_bits q)"
    by (simp add: bit_queue_has_space_def)
  have data: "fst (bit_queue_has_data (Some q) bit_count) = (bit_count \<le> written_bits q)"
    by (simp add: bit_queue_has_data_def)
  have nat_reading: "fst (bit_queue_has_space (Some q) bit_count) =
        (unat bit_count \<le> unat (buffer_size q * 8) - unat (written_bits q)) \<and>
      fst (bit_queue_has_data (Some q) bit_count) = (unat bit_count \<le> unat (written_bits q))"
    if "written_bits q \<le> buffer_size q * 8"
  proof -
    have "unat (buffer_size q * 8 - written_bits q) = unat (buffer_size q * 8) - unat (written_bits q)"
      using that by (simp add: unat_sub_if_size word_le_nat_alt)
    then show ?thesis
      by (simp add: space data word_le_nat_alt)
  qed
  show ?thesis
    using too_large no_space no_data space data nat_reading by blast
qed

text \<open>A queue of 16 bits that holds 12: requests of 17 bits, of 5 bits to write and of 13 bits to read.\<close>

theorem queue_errors_leave_queue_unchanged_witness:
  "bit_queue_write_bits
     (Some \<lparr>buffer = Some [0xFF, 0x0F], r_bit_offset = 0, r_byte_offset = 0, w_bit_offset = 4,
        w_byte_offset = 1, written_bits = 12, buffer_size = 2, free_buff = True\<rparr>)
     (Some [0, 0, 0]) 3 17 =
     Some (Inr (Some \<lparr>buffer = Some [0xFF, 0x0F], r_bit_offset = 0, r_byte_offset = 0,
        w_bit_offset = 4, w_byte_offset = 1, written_bits = 12, buffer_size = 2,
        free_buff = True\<rparr>, - 1, Some EMSGSIZE)) \<and>
   bit_queue_write_bits
     (Some \<lparr>buffer = Some [0xFF, 0x0F], r_bit_offset = 0, r_byte_offset = 0, w_bit_offset = 4,
        w_byte_offset = 1, written_bits = 12, buffer_size = 2, free_buff = True\<rparr>)
     (Some [0, 0, 0]) 3 5 =
     Some (Inr (Some \<lparr>buffer = Some [0xFF, 0x0F], r_bit_offset = 0, r_byte_offset = 0,
        w_bit_offset = 4, w_byte_offset = 1, written_bits = 12, buffer_size = 2,
        free_buff = True\<rparr>, - 1, Some EAGAIN)) \<and>
   bit_queue_read_bits
     (Some \<lparr>buffer = Some [0xFF, 0x0F], r_bit_offset = 0, r_byte_offset = 0, w_bit_offset = 4,
        w_byte_offset = 1, written_bits = 12, buffer_size = 2, free_buff = True\<rparr>)
     (Some [0, 0, 0]) 3 13 =
     Some (Inr (Some \<lparr>buffer = Some [0xFF, 0x0F], r_bit_offset = 0, r_byte_offset = 0,
        w_bit_offset = 4, w_byte_offset = 1, written_bits = 12, buffer_size = 2,
        free_buff = True\<rparr>, Some [0, 0, 0], - 1, Some EAGAIN))"
proof -
  let ?q = "\<lparr>buffer = Some [0xFF, 0x0F :: uint8_t], r_bit_offset = 0, r_byte_offset = 0,
        w_bit_offset = 4, w_byte_offset = 1, written_bits = 12, buffer_size = 2,
        free_buff = True\<rparr>"
  have b: "buffer ?q \<noteq> None" by simp
  have "(17 :: size_t) \<noteq> 0" "(17 :: size_t) \<le> 3 * 8" by simp_all
  note t17 = queue_errors_leave_queue_unchanged [OF b this, of "[0, 0, 0]" "[0, 0, 0]"]
  have "(5 :: size_t) \<noteq> 0" "(5 :: size_t) \<le> 3 * 8" by simp_all
  note t5 = queue_errors_leave_queue_unchanged [OF b this, of "[0, 0, 0]" "[0, 0, 0]"]
  have "(13 :: size_t) \<noteq> 0" "(13 :: size_t) \<le> 3 * 8" by simp_all
  note t13 = queue_errors_leave_queue_unchanged [OF b this, of "[0, 0, 0]" "[0, 0, 0]"]
  show ?thesis
    using t17 t5 t13 by (simp add: bit_queue_has_space_def bit_queue_has_data_def)
qed


text \<open>
  C8, at a queue of \<open>2 ^ 28\<close> bytes. The queue comes from
  \<^verbatim>\<open>bit_queue_base_init\<close> and is empty; its capacity is \<open>2 ^ 31\<close> bits. A write of
  \<open>2 ^ 31\<close> bits from a zeroed buffer of \<open>2 ^ 28\<close> bytes passes every check and
  the transfer primitive copies all of them, but the count it returns is an
  \<^verbatim>\<open>int\<close>, where \<open>2 ^ 31\<close> is \<open>- 2 ^ 31\<close>. \<^verbatim>\<open>written_bits += ret_val\<close> extends the
  sign and leaves \<open>2 ^ 64 - 2 ^ 31\<close> in \<^verbatim>\<open>written_bits\<close>, the loop goes round
  once more with a remaining count of \<open>2 ^ 32\<close> bits, and the call ends with -1
  and \<^verbatim>\<open>EINVAL\<close>. The queue it leaves is reachable and its \<^verbatim>\<open>written_bits\<close> is
  above \<open>buffer_size * 8\<close>.
\<close>

theorem int_count_breaks_cursor_inv:
  "bit_queue_base_init True True 268435456 =
     (Some \<lparr>buffer = Some (replicate 268435456 0), r_bit_offset = 0, r_byte_offset = 0,
        w_bit_offset = 0, w_byte_offset = 0, written_bits = 0, buffer_size = 268435456,
        free_buff = True\<rparr>, None) \<and>
   bit_queue_write_bits
     (Some \<lparr>buffer = Some (replicate 268435456 0), r_bit_offset = 0, r_byte_offset = 0,
        w_bit_offset = 0, w_byte_offset = 0, written_bits = 0, buffer_size = 268435456,
        free_buff = True\<rparr>)
     (Some (replicate 268435456 0)) 268435456 2147483648 =
     Some (Inr (Some \<lparr>buffer = Some (replicate 268435456 0), r_bit_offset = 0,
        r_byte_offset = 0, w_bit_offset = 0, w_byte_offset = 0,
        written_bits = 18446744071562067968, buffer_size = 268435456, free_buff = True\<rparr>,
        - 1, Some EINVAL)) \<and>
   reachable \<lparr>buffer = Some (replicate 268435456 0), r_bit_offset = 0, r_byte_offset = 0,
        w_bit_offset = 0, w_byte_offset = 0, written_bits = 18446744071562067968,
        buffer_size = 268435456, free_buff = True\<rparr> \<and>
   \<not> cursor_inv \<lparr>buffer = Some (replicate 268435456 0), r_bit_offset = 0, r_byte_offset = 0,
        w_bit_offset = 0, w_byte_offset = 0, written_bits = 18446744071562067968,
        buffer_size = 268435456, free_buff = True\<rparr>"
proof -
  let ?init = "\<lparr>buffer = Some (replicate 268435456 (0 :: uint8_t)), r_bit_offset = 0,
        r_byte_offset = 0, w_bit_offset = 0, w_byte_offset = 0, written_bits = 0,
        buffer_size = 268435456, free_buff = True\<rparr>"
  let ?over = "\<lparr>buffer = Some (replicate 268435456 (0 :: uint8_t)), r_bit_offset = 0,
        r_byte_offset = 0, w_bit_offset = 0, w_byte_offset = 0,
        written_bits = 18446744071562067968, buffer_size = 268435456, free_buff = True\<rparr>"
  have b: "bit_queue_base_init True True 268435456 = (Some ?init, None)"
    by (simp add: bit_queue_base_init_def calloc_bit_queue_def)
  have w: "bit_queue_write_bits (Some ?init) (Some (replicate 268435456 0)) 268435456 2147483648 =
      Some (Inr (Some ?over, - 1, Some EINVAL))"
    using write_of_2_pow_31_bits by simp
  have "reachable ?init"
    using b by (rule reachable.by_base_init)
  then have r: "reachable ?over"
    using w by (rule reachable.by_write)
  have "\<not> cursor_inv ?over"
    by (simp add: cursor_inv_def)
  then show ?thesis using b w r by simp
qed

text \<open>
  Below that size the invariant of C8 holds. \<open>reachable\<close> holds of the queues
  that \<^verbatim>\<open>bit_queue_base_init\<close> and \<^verbatim>\<open>bit_queue_init\<close> return and of the queues
  that \<^verbatim>\<open>bit_queue_write_bits\<close> and \<^verbatim>\<open>bit_queue_read_bits\<close> leave behind when
  called on a reachable queue with any buffer, buffer size and bit count,
  whether the call succeeds or fails. Every such queue of fewer than \<open>2 ^ 28\<close>
  bytes, whose capacity in bits fits the \<^verbatim>\<open>int\<close> result of the transfer
  primitive, has both byte offsets below \<open>buffer_size\<close>, both bit offsets below 8
  and \<open>written_bits\<close> at most \<open>buffer_size * 8\<close>.
\<close>

theorem reachable_cursor_inv:
  assumes "reachable q" and "unat (buffer_size q) < 2 ^ 28"
  shows "cursor_inv q"
  using assms
proof (induction rule: reachable.induct)
  case (by_base_init calloc_bq calloc_buffer byte_count q e)
  then show ?case by (simp add: constructors_inv)
next
  case (by_init calloc_bq buffer_arg byte_count free_buff_arg q e)
  then show ?case by (simp add: constructors_inv)
next
  case (by_write q buffer_arg buffer_size_arg bit_count q' ret_val e)
  then show ?case using write_bits_inv [OF by_write.hyps(2)] by simp
next
  case (by_read q buffer_arg buffer_size_arg bit_count q' buffer_arg' ret_val e)
  then show ?case using read_bits_inv [OF by_read.hyps(2)] by simp
qed

theorem reachable_cursor_inv_witness:
  "reachable \<lparr>buffer = Some [0xFF, 0x0F], r_bit_offset = 0, r_byte_offset = 0,
       w_bit_offset = 4, w_byte_offset = 1, written_bits = 12, buffer_size = 2,
       free_buff = True\<rparr> \<and>
   cursor_inv \<lparr>buffer = Some [0xFF, 0x0F], r_bit_offset = 0, r_byte_offset = 0,
       w_bit_offset = 4, w_byte_offset = 1, written_bits = 12, buffer_size = 2,
       free_buff = True\<rparr>"
proof -
  let ?init = "\<lparr>buffer = Some [0, 0 :: uint8_t], r_bit_offset = 0, r_byte_offset = 0,
       w_bit_offset = 0, w_byte_offset = 0, written_bits = 0, buffer_size = 2,
       free_buff = True\<rparr>"
  let ?full = "\<lparr>buffer = Some [0xFF, 0x0F :: uint8_t], r_bit_offset = 0, r_byte_offset = 0,
       w_bit_offset = 4, w_byte_offset = 1, written_bits = 12, buffer_size = 2,
       free_buff = True\<rparr>"
  have "bit_queue_base_init True True 2 = (Some ?init, None)"
    by code_simp
  then have r0: "reachable ?init"
    by (rule reachable.by_base_init)
  have "bit_queue_write_bits (Some ?init) (Some [0xFF, 0x0F]) 2 12 = Some (Inr (Some ?full, 12, None))"
    by code_simp
  with r0 have r: "reachable ?full"
    by (rule reachable.by_write)
  have "unat (buffer_size ?full) < 2 ^ 28"
    by simp
  with r have "cursor_inv ?full"
    by (rule reachable_cursor_inv)
  with r show ?thesis by simp
qed

section \<open>The example scenario\<close>

text \<open>
  C3, as the code runs it. A queue wraps the two bytes 0xAA 0xAA without owning
  them: a read of 8 bits into a cleared buffer gives the byte 0xAA (170). A fresh
  owned queue of two bytes takes the same 16 bits; a read of 5 bits gives
  0b01010 = 10, and the following read of 1 bit gives bit 5 of 0xAA, the sixth
  bit from the least significant one, which is 1.
\<close>

theorem example_scenario_reads:
  "bit_queue_read_bits (fst (bit_queue_init True (Some [0xAA, 0xAA]) 2 False)) (Some [0, 0]) 2 8 =
     Some (Inr (Some \<lparr>buffer = Some [0xAA, 0xAA], r_bit_offset = 0, r_byte_offset = 1,
       w_bit_offset = 0, w_byte_offset = 0, written_bits = 8, buffer_size = 2,
       free_buff = False\<rparr>, Some [0xAA, 0], 8, None)) \<and>
   bit_queue_write_bits (fst (bit_queue_base_init True True 2)) (Some [0xAA, 0xAA]) 2 16 =
     Some (Inr (Some \<lparr>buffer = Some [0xAA, 0xAA], r_bit_offset = 0, r_byte_offset = 0,
       w_bit_offset = 0, w_byte_offset = 0, written_bits = 16, buffer_size = 2,
       free_buff = True\<rparr>, 16, None)) \<and>
   bit_queue_read_bits
     (Some \<lparr>buffer = Some [0xAA, 0xAA], r_bit_offset = 0, r_byte_offset = 0,
       w_bit_offset = 0, w_byte_offset = 0, written_bits = 16, buffer_size = 2,
       free_buff = True\<rparr>) (Some [0, 0]) 2 5 =
     Some (Inr (Some \<lparr>buffer = Some [0xAA, 0xAA], r_bit_offset = 5, r_byte_offset = 0,
       w_bit_offset = 0, w_byte_offset = 0, written_bits = 11, buffer_size = 2,
       free_buff = True\<rparr>, Some [10, 0], 5, None)) \<and>
   bit_queue_read_bits
     (Some \<lparr>buffer = Some [0xAA, 0xAA], r_bit_offset = 5, r_byte_offset = 0,
       w_bit_offset = 0, w_byte_offset = 0, written_bits = 11, buffer_size = 2,
       free_buff = True\<rparr>) (Some [0, 0]) 2 1 =
     Some (Inr (Some \<lparr>buffer = Some [0xAA, 0xAA], r_bit_offset = 6, r_byte_offset = 0,
       w_bit_offset = 0, w_byte_offset = 0, written_bits = 10, buffer_size = 2,
       free_buff = True\<rparr>, Some [1, 0], 1, None))"
  by code_simp

text \<open>
  The read of 1 bit that follows the read of 5 bits does not leave 0 in the
  caller's cleared buffer, as C3 has it.
\<close>

theorem example_scenario_sixth_bit_not_zero:
  "read_dest (bit_queue_read_bits
     (Some \<lparr>buffer = Some [0xAA, 0xAA], r_bit_offset = 5, r_byte_offset = 0,
       w_bit_offset = 0, w_byte_offset = 0, written_bits = 11, buffer_size = 2,
       free_buff = True\<rparr>) (Some [0, 0]) 2 1) \<noteq> Some [0, 0]"
  by code_simp

section \<open>Chunks of 249 bits and more\<close>

text \<open>
  C1 at a queue of 33 bytes. The bit sequence is 256 zeros followed by a one,
  written as a chunk of 256 bits and a chunk of 1 bit. The cursor update stores
  \<open>0 + 256\<close> into the eight bits of \<^verbatim>\<open>w_bit_offset\<close>, so the write cursor stays at
  byte 0, bit 0, and the second chunk lands on bit 0 of byte 0. Reading the 257
  bits back gives a one followed by 256 zeros.
\<close>

theorem round_trip_fails_after_256_bit_chunk:
  "bit_queue_write_bits (fst (bit_queue_base_init True True 33)) (Some (replicate 32 0)) 32 256 =
     Some (Inr (Some \<lparr>buffer = Some (replicate 33 0), r_bit_offset = 0, r_byte_offset = 0,
       w_bit_offset = 0, w_byte_offset = 0, written_bits = 256, buffer_size = 33,
       free_buff = True\<rparr>, 256, None)) \<and>
   bit_queue_write_bits
     (Some \<lparr>buffer = Some (replicate 33 0), r_bit_offset = 0, r_byte_offset = 0,
       w_bit_offset = 0, w_byte_offset = 0, written_bits = 256, buffer_size = 33,
       free_buff = True\<rparr>) (Some [1]) 1 1 =
     Some (Inr (Some \<lparr>buffer = Some (1 # replicate 32 0), r_bit_offset = 0, r_byte_offset = 0,
       w_bit_offset = 1, w_byte_offset = 0, written_bits = 257, buffer_size = 33,
       free_buff = True\<rparr>, 1, None)) \<and>
   bit_queue_read_bits
     (Some \<lparr>buffer = Some (1 # replicate 32 0), r_bit_offset = 0, r_byte_offset = 0,
       w_bit_offset = 1, w_byte_offset = 0, written_bits = 257, buffer_size = 33,
       free_buff = True\<rparr>) (Some (replicate 33 0)) 33 257 =
     Some (Inr (Some \<lparr>buffer = Some (1 # replicate 32 0), r_bit_offset = 1, r_byte_offset = 0,
       w_bit_offset = 1, w_byte_offset = 0, written_bits = 0, buffer_size = 33,
       free_buff = True\<rparr>, Some (1 # replicate 32 0), 257, None)) \<and>
   1 # replicate 32 0 \<noteq> replicate 32 0 @ [1 :: uint8_t]"
  by code_simp

section \<open>A write across the end of the ring\<close>

text \<open>
  C2 at a queue of 2 bytes. After a write and a read of 12 bits both cursors stand
  at byte 1, bit 4, and the queue is empty. A write of 8 bits passes every check
  of \<^verbatim>\<open>bit_queue_write_bits\<close>, the space check included; the transfer primitive
  then finds 4 bits left before the end of the buffer, and the call returns -1
  with \<^verbatim>\<open>EMSGSIZE\<close> and a queue it has not touched.
\<close>

theorem write_across_ring_end_fails:
  "bit_queue_write_bits (fst (bit_queue_base_init True True 2)) (Some [0xFF, 0x0F]) 2 12 =
     Some (Inr (Some \<lparr>buffer = Some [0xFF, 0x0F], r_bit_offset = 0, r_byte_offset = 0,
       w_bit_offset = 4, w_byte_offset = 1, written_bits = 12, buffer_size = 2,
       free_buff = True\<rparr>, 12, None)) \<and>
   bit_queue_read_bits
     (Some \<lparr>buffer = Some [0xFF, 0x0F], r_bit_offset = 0, r_byte_offset = 0,
       w_bit_offset = 4, w_byte_offset = 1, written_bits = 12, buffer_size = 2,
       free_buff = True\<rparr>) (Some [0, 0]) 2 12 =
     Some (Inr (Some \<lparr>buffer = Some [0xFF, 0x0F], r_bit_offset = 4, r_byte_offset = 1,
       w_bit_offset = 4, w_byte_offset = 1, written_bits = 0, buffer_size = 2,
       free_buff = True\<rparr>, Some [0xFF, 0x0F], 12, None)) \<and>
   bit_queue_has_space
     (Some \<lparr>buffer = Some [0xFF, 0x0F :: uint8_t], r_bit_offset = 4, r_byte_offset = 1,
       w_bit_offset = 4, w_byte_offset = 1, written_bits = 0, buffer_size = 2,
       free_buff = True\<rparr>) 8 = (True, None) \<and>
   bit_queue_write_bits
     (Some \<lparr>buffer = Some [0xFF, 0x0F], r_bit_offset = 4, r_byte_offset = 1,
       w_bit_offset = 4, w_byte_offset = 1, written_bits = 0, buffer_size = 2,
       free_buff = True\<rparr>) (Some [0xFF]) 1 8 =
     Some (Inr (Some \<lparr>buffer = Some [0xFF, 0x0F], r_bit_offset = 4, r_byte_offset = 1,
       w_bit_offset = 4, w_byte_offset = 1, written_bits = 0, buffer_size = 2,
       free_buff = True\<rparr>, - 1, Some EMSGSIZE))"
  by code_simp

section \<open>Destroying a queue twice\<close>

text \<open>
  C9 at the heap after \<^verbatim>\<open>bit_queue_base_init(1)\<close>. The first
  \<^verbatim>\<open>bit_queue_destroy\<close> frees the buffer and the queue and returns 0. The second
  call on the same pointer reads \<^verbatim>\<open>bq->buffer\<close> from the queue that the first
  call freed: it does not return -1 with \<^verbatim>\<open>EINVAL\<close>.
\<close>

theorem destroy_twice_reads_freed_queue:
  "bit_queue_destroy owned_heap (Some 1) =
     Inr (\<lparr>queues = Map.empty, blocks = Map.empty\<rparr>, 0, None) \<and>
   bit_queue_destroy \<lparr>queues = Map.empty, blocks = Map.empty\<rparr> (Some 1) = Inl UseAfterFree"
  by (simp add: bit_queue_destroy_def owned_heap_def heap_free_def)

end
